theory Spec2Isabelle
  imports Main "HOL-Library.Sublist"
begin

section \<open>Data model (package internal)\<close>

text \<open>
  Go strings are byte sequences: they are modelled as \<open>string\<close> (a list of 8-bit
  \<open>char\<close>s), so \<open>length\<close> is Go's \<open>len\<close> and a non-ASCII character is written as its
  UTF-8 bytes. A timestamp (\<open>time.Time\<close>) is an abstract number.
\<close>

type_synonym time = nat

datatype Role = RoleUser | RoleAssistant

record Message =
  Role :: Role
  Content :: string
  CreatedAt :: time

record KnowledgeFile =
  Name :: string
  Size :: int
  Text :: string

record SendMessageRequest =
  reqContent :: string

record UploadFilesRequest =
  Files :: "KnowledgeFile list"

section \<open>The in-memory store (internal/store/memory.go)\<close>

text \<open>
  The mutex is not modelled: every operation below is one critical section, and the
  model is the sequential behaviour of the store. A slice is modelled as the list of its
  elements; \<open>All\<close> and \<open>ListFiles\<close> return copies, so no caller shares a backing array
  with the store. The method \<open>All\<close> is \<open>AllMessages\<close> here, since \<open>All\<close> is a constant of
  HOL.
\<close>

record MemoryStore =
  messages :: "Message list"
  knowledge :: "KnowledgeFile list"

definition NewMemoryStore :: MemoryStore where
  "NewMemoryStore = \<lparr>messages = [], knowledge = []\<rparr>"

definition AllMessages :: "MemoryStore \<Rightarrow> Message list" where
  "AllMessages s = messages s"

definition Append :: "Message \<Rightarrow> MemoryStore \<Rightarrow> MemoryStore" where
  "Append msg s = s\<lparr>messages := messages s @ [msg]\<rparr>"

definition Reset :: "MemoryStore \<Rightarrow> MemoryStore" where
  "Reset s = s\<lparr>messages := take 0 (messages s)\<rparr>"

definition SeedAssistantHello :: "time \<Rightarrow> string \<Rightarrow> MemoryStore \<Rightarrow> MemoryStore" where
  "SeedAssistantHello now txt s =
     Append \<lparr>Role = RoleAssistant, Content = txt, CreatedAt = now\<rparr> s"

text \<open>
  \<open>AddFiles\<close>, first loop: \<open>for i, f := range s.knowledge { nameToIdx[f.Name] = i }\<close>.
  A later file with the same name overwrites the index of an earlier one.
\<close>

fun indexNames :: "nat \<Rightarrow> KnowledgeFile list \<Rightarrow> (string \<rightharpoonup> nat) \<Rightarrow> (string \<rightharpoonup> nat)" where
  "indexNames i [] m = m"
| "indexNames i (f # fs) m = indexNames (Suc i) fs (m(Name f \<mapsto> i))"

text \<open>
  \<open>AddFiles\<close>, second loop. The assignment \<open>s.knowledge[idx] = f\<close> panics in Go when
  \<open>idx\<close> is out of range; the panic is the value \<open>None\<close>.
\<close>

fun upsertFiles ::
  "KnowledgeFile list \<Rightarrow> KnowledgeFile list \<times> (string \<rightharpoonup> nat) \<Rightarrow>
     (KnowledgeFile list \<times> (string \<rightharpoonup> nat)) option" where
  "upsertFiles [] st = Some st"
| "upsertFiles (f # fs) (ks, m) =
     (case m (Name f) of
        Some idx \<Rightarrow>
          if idx < length ks then upsertFiles fs (ks[idx := f], m) else None
      | None \<Rightarrow>
          (let ks' = ks @ [f] in upsertFiles fs (ks', m(Name f \<mapsto> length ks' - 1))))"

definition AddFiles :: "KnowledgeFile list \<Rightarrow> MemoryStore \<Rightarrow> (nat \<times> MemoryStore) option" where
  "AddFiles files s =
     (case upsertFiles files (knowledge s, indexNames 0 (knowledge s) Map.empty) of
        None \<Rightarrow> None
      | Some (ks, m) \<Rightarrow> Some (length ks, s\<lparr>knowledge := ks\<rparr>))"

definition ListFiles :: "MemoryStore \<Rightarrow> KnowledgeFile list" where
  "ListFiles s = knowledge s"

text \<open>
  \<open>RemoveFile\<close> filters in place: \<open>out := s.knowledge[:0]\<close> shares the backing array
  of \<open>s.knowledge\<close>, and \<open>append(out, f)\<close> writes the kept file at index \<open>j\<close> of that
  array while the \<open>range\<close> loop is still reading it at index \<open>i\<close>. The loop state is the
  array \<open>arr\<close>, the read index \<open>i\<close> and the length \<open>j\<close> of \<open>out\<close>.
\<close>

function removeLoop ::
  "string \<Rightarrow> KnowledgeFile list \<Rightarrow> nat \<Rightarrow> nat \<Rightarrow> KnowledgeFile list \<times> nat" where
  "removeLoop name arr i j =
     (if i < length arr then
        (let f = arr ! i in
         if Name f \<noteq> name then removeLoop name (arr[j := f]) (Suc i) (Suc j)
         else removeLoop name arr (Suc i) j)
      else (arr, j))"
  by pat_completeness auto
termination
  by (relation "measure (\<lambda>(name, arr, i, j). length arr - i)") auto

declare removeLoop.simps [simp del]

definition RemoveFile :: "string \<Rightarrow> MemoryStore \<Rightarrow> nat \<times> MemoryStore" where
  "RemoveFile name s =
     (case removeLoop name (knowledge s) 0 0 of
        (arr, j) \<Rightarrow> (let out = take j arr in (length out, s\<lparr>knowledge := out\<rparr>)))"

definition ClearFiles :: "MemoryStore \<Rightarrow> MemoryStore" where
  "ClearFiles s = s\<lparr>knowledge := take 0 (knowledge s)\<rparr>"

text \<open>
  The loop invariant of \<open>AddFiles\<close>: every index of \<open>nameToIdx\<close> is in range and
  points at a file of that name, and every stored name has an index.
\<close>

definition idxOk :: "KnowledgeFile list \<Rightarrow> (string \<rightharpoonup> nat) \<Rightarrow> bool" where
  "idxOk ks m \<longleftrightarrow>
     (\<forall>n i. m n = Some i \<longrightarrow> i < length ks \<and> Name (ks ! i) = n) \<and>
     (\<forall>f \<in> set ks. m (Name f) \<noteq> None)"

text \<open>The mutating operations of the store, as one step function.\<close>

datatype StoreOp =
    OpAppend Message
  | OpReset
  | OpAddFiles "KnowledgeFile list"
  | OpRemoveFile string
  | OpClearFiles

fun applyOp :: "StoreOp \<Rightarrow> MemoryStore \<Rightarrow> MemoryStore option" where
  "applyOp (OpAppend msg) s = Some (Append msg s)"
| "applyOp OpReset s = Some (Reset s)"
| "applyOp (OpAddFiles fs) s = map_option snd (AddFiles fs s)"
| "applyOp (OpRemoveFile name) s = Some (snd (RemoveFile name s))"
| "applyOp OpClearFiles s = Some (ClearFiles s)"

fun applyOps :: "StoreOp list \<Rightarrow> MemoryStore \<Rightarrow> MemoryStore option" where
  "applyOps [] s = Some s"
| "applyOps (op # ops) s =
     (case applyOp op s of None \<Rightarrow> None | Some s' \<Rightarrow> applyOps ops s')"

fun isReset :: "StoreOp \<Rightarrow> bool" where
  "isReset OpReset = True"
| "isReset _ = False"

text \<open>The messages an operation appends (none, unless it is an append).\<close>

fun appendedBy :: "StoreOp \<Rightarrow> Message list" where
  "appendedBy (OpAppend msg) = [msg]"
| "appendedBy _ = []"

section \<open>Library functions used by the prompt builder\<close>

subsection \<open>Package strings\<close>

text \<open>
  \<open>strings.Contains(s, substr)\<close>: \<open>substr\<close> occurs in \<open>s\<close> at some byte offset.
\<close>

fun Contains :: "string \<Rightarrow> string \<Rightarrow> bool" where
  "Contains [] substr = (substr = [])"
| "Contains (c # cs) substr = (prefix substr (c # cs) \<or> Contains cs substr)"

text \<open>
  \<open>strings.Replace(s, old, new, 1)\<close>: the first occurrence of \<open>old\<close> in \<open>s\<close> is replaced;
  \<open>s\<close> is returned unchanged when there is none.
\<close>

fun Replace1 :: "string \<Rightarrow> string \<Rightarrow> string \<Rightarrow> string" where
  "Replace1 [] old new = (if old = [] then new else [])"
| "Replace1 (c # cs) old new =
     (if prefix old (c # cs) then new @ drop (length old) (c # cs)
      else c # Replace1 cs old new)"

text \<open>\<open>fmt\<close>'s verb \<open>%d\<close> for an \<open>int\<close>: the decimal digits, with a sign when negative.\<close>

fun natDigits :: "nat \<Rightarrow> string" where
  "natDigits n =
     (if n < 10 then [''0123456789'' ! n]
      else natDigits (n div 10) @ [''0123456789'' ! (n mod 10)])"

declare natDigits.simps [simp del]

definition formatInt :: "int \<Rightarrow> string" where
  "formatInt i = (if i < 0 then ''-'' @ natDigits (nat (- i)) else natDigits (nat i))"

subsection \<open>Package unicode/utf8\<close>

text \<open>
  A byte is read as a number with \<open>of_char\<close>. The table \<open>first\<close> of the package classifies
  a leading byte at or above \<open>RuneSelf\<close>: \<open>None\<close> is the entry \<open>xx\<close> (illegal), and
  \<open>Some (size, lo, hi)\<close> gives the length of the sequence and the range accepted for its
  second byte.
\<close>

definition RuneSelf :: nat where "RuneSelf = 0x80"
definition RuneError :: nat where "RuneError = 0xFFFD"
definition MaxRune :: nat where "MaxRune = 0x10FFFF"
definition locb :: nat where "locb = 0x80"
definition hicb :: nat where "hicb = 0xBF"

definition firstByte :: "nat \<Rightarrow> (nat \<times> nat \<times> nat) option" where
  "firstByte b =
     (if b < 0xC2 then None
      else if b < 0xE0 then Some (2, locb, hicb)
      else if b = 0xE0 then Some (3, 0xA0, hicb)
      else if b < 0xED then Some (3, locb, hicb)
      else if b = 0xED then Some (3, locb, 0x9F)
      else if b < 0xF0 then Some (3, locb, hicb)
      else if b = 0xF0 then Some (4, 0x90, hicb)
      else if b < 0xF4 then Some (4, locb, hicb)
      else if b = 0xF4 then Some (4, locb, 0x8F)
      else None)"

definition byteAt :: "string \<Rightarrow> nat \<Rightarrow> nat" where
  "byteAt s i = of_char (s ! i)"

text \<open>
  \<open>utf8.ValidString\<close>. Every index read below is in range: the length test comes first.
\<close>

fun ValidString :: "string \<Rightarrow> bool" where
  "ValidString [] = True"
| "ValidString (c # cs) =
     (let si = of_char c in
      if si < RuneSelf then ValidString cs
      else
        (case firstByte si of
           None \<Rightarrow> False
         | Some (sz, lo, hi) \<Rightarrow>
             if length (c # cs) < sz then False
             else if byteAt cs 0 < lo \<or> hi < byteAt cs 0 then False
             else if sz = 2 then ValidString (drop 1 cs)
             else if byteAt cs 1 < locb \<or> hicb < byteAt cs 1 then False
             else if sz = 3 then ValidString (drop 2 cs)
             else if byteAt cs 2 < locb \<or> hicb < byteAt cs 2 then False
             else ValidString (drop 3 cs)))"

text \<open>\<open>utf8.DecodeRuneInString\<close>: the rune at the start of the string and its width.\<close>

fun DecodeRuneInString :: "string \<Rightarrow> nat \<times> nat" where
  "DecodeRuneInString [] = (RuneError, 0)"
| "DecodeRuneInString (c # cs) =
     (let s0 = of_char c in
      if s0 < RuneSelf then (s0, 1)
      else
        (case firstByte s0 of
           None \<Rightarrow> (RuneError, 1)
         | Some (sz, lo, hi) \<Rightarrow>
             if length (c # cs) < sz then (RuneError, 1)
             else if byteAt cs 0 < lo \<or> hi < byteAt cs 0 then (RuneError, 1)
             else if sz \<le> 2 then (s0 mod 32 * 64 + byteAt cs 0 mod 64, 2)
             else if byteAt cs 1 < locb \<or> hicb < byteAt cs 1 then (RuneError, 1)
             else if sz \<le> 3 then
               (s0 mod 16 * 4096 + byteAt cs 0 mod 64 * 64 + byteAt cs 1 mod 64, 3)
             else if byteAt cs 2 < locb \<or> hicb < byteAt cs 2 then (RuneError, 1)
             else
               (s0 mod 8 * 262144 + byteAt cs 0 mod 64 * 4096 + byteAt cs 1 mod 64 * 64
                  + byteAt cs 2 mod 64, 4)))"

text \<open>
  \<open>utf8.AppendRune\<close>: the UTF-8 bytes of a rune; a surrogate or a rune above \<open>MaxRune\<close>
  is written as \<open>RuneError\<close>.
\<close>

definition EncodeRune :: "nat \<Rightarrow> string" where
  "EncodeRune r =
     (if r \<le> 0x7F then [char_of r]
      else if r \<le> 0x7FF then [char_of (0xC0 + r div 64), char_of (0x80 + r mod 64)]
      else if MaxRune < r \<or> (0xD800 \<le> r \<and> r \<le> 0xDFFF) then [CHR 0xEF, CHR 0xBF, CHR 0xBD]
      else if r \<le> 0xFFFF then
        [char_of (0xE0 + r div 4096), char_of (0x80 + r div 64 mod 64), char_of (0x80 + r mod 64)]
      else
        [char_of (0xF0 + r div 262144), char_of (0x80 + r div 4096 mod 64),
         char_of (0x80 + r div 64 mod 64), char_of (0x80 + r mod 64)])"

subsection \<open>Lower-casing\<close>

text \<open>
  \<open>unicode.ToLower\<close> handles ASCII itself and looks every other rune up in the Unicode
  case tables. The tables are not part of this program: the lookup
  \<open>unicode.To(unicode.LowerCase, r)\<close> is the parameter \<open>caseTable\<close> of the model.
\<close>

definition unicodeToLower :: "(nat \<Rightarrow> nat) \<Rightarrow> nat \<Rightarrow> nat" where
  "unicodeToLower caseTable r =
     (if r \<le> 0x7F then (if 0x41 \<le> r \<and> r \<le> 0x5A then r + 0x20 else r)
      else caseTable r)"

text \<open>
  \<open>strings.Map(mapping, s)\<close> for a mapping that never drops a rune: the runes of \<open>s\<close> are
  decoded in turn (an invalid byte decodes as \<open>RuneError\<close> of width 1), mapped and encoded.
\<close>

fun mapRunes :: "(nat \<Rightarrow> nat) \<Rightarrow> string \<Rightarrow> string" where
  "mapRunes mapping [] = []"
| "mapRunes mapping (c # cs) =
     (case DecodeRuneInString (c # cs) of
        (r, width) \<Rightarrow> EncodeRune (mapping r) @ mapRunes mapping (drop (width - 1) cs))"

definition lowerByte :: "char \<Rightarrow> char" where
  "lowerByte c =
     (if 0x41 \<le> (of_char c :: nat) \<and> (of_char c :: nat) \<le> 0x5A
      then char_of ((of_char c :: nat) + 0x20) else c)"

text \<open>
  \<open>strings.ToLower\<close>: a string of ASCII bytes is lower-cased byte by byte, any other
  string goes through \<open>strings.Map(unicode.ToLower, s)\<close>.
\<close>

definition ToLower :: "(nat \<Rightarrow> nat) \<Rightarrow> string \<Rightarrow> string" where
  "ToLower caseTable s =
     (if list_all (\<lambda>c. (of_char c :: nat) < RuneSelf) s then map lowerByte s
      else mapRunes (unicodeToLower caseTable) s)"

section \<open>The prompt builder (main.go)\<close>

definition maxPerFileBytes :: nat where "maxPerFileBytes = 20 * 1024"
definition maxTotalBytes :: nat where "maxTotalBytes = 80 * 1024"
definition filesMax :: nat where "filesMax = 50"

text \<open>
  The loop \<open>for !utf8.ValidString(txt) && len(txt) > 0 { txt = txt[:len(txt)-1] }\<close>.
\<close>

function trimInvalid :: "string \<Rightarrow> string" where
  "trimInvalid txt =
     (if \<not> ValidString txt \<and> length txt > 0
      then trimInvalid (take (length txt - 1) txt) else txt)"
  by pat_completeness auto
termination
  by (relation "measure length") auto

declare trimInvalid.simps [simp del]

text \<open>
  The excerpt of one file, given the bytes already spent: the per-file cut, the cut to
  the rest of the total budget, and the trimming of a split rune.
\<close>

definition excerpt :: "nat \<Rightarrow> KnowledgeFile \<Rightarrow> string" where
  "excerpt tot f =
     (let txt = Text f;
          txt = (if length txt > maxPerFileBytes then take maxPerFileBytes txt else txt);
          txt = (if tot + length txt > maxTotalBytes then take (maxTotalBytes - tot) txt
                 else txt)
      in trimInvalid txt)"

definition fileLine :: "KnowledgeFile \<Rightarrow> string" where
  "fileLine f = ''- '' @ Name f @ '' ('' @ formatInt (Size f) @ '' bytes)\<newline>''"

definition contextHeader :: string where
  "contextHeader =
     ''[Contexto de archivos CSV cargados]\<newline>'' @
     ''Puedes usar estos datos para responder si el usuario los menciona o pide an'' @
     [CHR 0xC3, CHR 0xA1] @ ''lisis.\<newline>''"

text \<open>The body of the loop over the files: the state is the builder and the counter \<open>total\<close> (here \<open>tot\<close>).\<close>

fun filesLoop :: "KnowledgeFile list \<Rightarrow> string \<times> nat \<Rightarrow> string \<times> nat" where
  "filesLoop [] st = st"
| "filesLoop (f # fs) (b, tot) =
     (let b = b @ fileLine f in
      if tot \<ge> maxTotalBytes then filesLoop fs (b, tot)
      else
        (let txt = excerpt tot f in
         if length txt > 0 then
           filesLoop fs
             (b @ ''Contenido (parcial):\<newline>\<newline>'' @ txt @ ''\<newline>\<newline>'',
              tot + length txt)
         else filesLoop fs (b, tot)))"

definition buildFilesContext :: "MemoryStore \<Rightarrow> string" where
  "buildFilesContext mem =
     (let files = ListFiles mem in
      if length files = 0 then ''''
      else fst (filesLoop files (contextHeader, 0)))"

text \<open>
  The excerpts the loop emits, in order (the empty string for a file that gets none):
  the same recursion as \<open>filesLoop\<close>, keeping the excerpts instead of the builder.
\<close>

fun excerpts :: "nat \<Rightarrow> KnowledgeFile list \<Rightarrow> string list" where
  "excerpts tot [] = []"
| "excerpts tot (f # fs) =
     (if tot \<ge> maxTotalBytes then [] # excerpts tot fs
      else excerpt tot f # excerpts (tot + length (excerpt tot f)) fs)"

definition fileEntry :: "KnowledgeFile \<times> string \<Rightarrow> string" where
  "fileEntry p =
     (case p of (f, txt) \<Rightarrow>
        fileLine f @
        (if length txt > 0
         then ''Contenido (parcial):\<newline>\<newline>'' @ txt @ ''\<newline>\<newline>'' else ''''))"

text \<open>The analyst template, cut at its two placeholders.\<close>

definition templateHead :: string where
  \<open>templateHead =
     ''You are an expert market researcher and data analyst for a major financial '' @
     ''institution. Your task is to analyze raw customer feedback and summarize '' @
     ''the key insights. Below is a collection of customer feedback data from various '' @
     ''sources including social media, surveys, and chat logs.\<newline>'' @
     ''Customer Data: ''\<close>

definition placeholderData :: string where
  \<open>placeholderData =
     ''{Insert your raw customer data here}''\<close>

definition templateMid :: string where
  \<open>templateMid =
     ''\<newline>'' @
     ''User Query: ''\<close>

definition placeholderQuery :: string where
  \<open>placeholderQuery =
     ''{Insert the Nubanker's question here, e.g., "what are credit card customers' '' @
     ''main pain points from the last 3 months?"}''\<close>

text \<open>
  The rest of the template: the instructions and mode rules, then the lines of the output
  format, one per section.
\<close>

definition templateRules :: string where
  \<open>templateRules =
     ''\<newline>'' @
     ''Instructions:\<newline>'' @
     ''Analyze the provided "Customer Data" to answer the "User Query."\<newline>'' @
     ''Synthesize the key information into a concise summary.\<newline>'' @
     ''Identify the main pain points, frustrations, and underlying customer needs '' @
     ''mentioned in the data.\<newline>'' @
     ''Translate the pain points into specific, actionable feedback that can be '' @
     ''used by product and operations teams\<newline>'' @
     ''List the top 3 most frequently mentioned topics or themes related to the '' @
     ''query. For each topic, calculate the approximate percentage of mentions '' @
     ''it accounts for.\<newline>'' @
     ''For each of the top 3 topics, provide 1-2 direct quotes (verbatim) from '' @
     ''the data to serve as concrete examples.\<newline>'' @
     ''\<newline>'' @
     ''Mode rules:\<newline>'' @
     ''- Use the required output format ONLY if the User Query is about analyzing '' @
     ''data/feedback (e.g., asks for insights, summary, pain points, frequencies/percentages, '' @
     ''themes/topics, verbatim quotes, surveys, social listening, or similar analysis '' @
     ''tasks).\<newline>'' @
     ''- If the User Query is NOT about data analysis (e.g., greetings, casual '' @
     ''questions, UI/help questions, deployment, configuration), DO NOT use the '' @
     ''formatted sections. Respond briefly and directly in neutral Spanish without '' @
     ''any of the formatted headers.\<newline>'' @
     ''- If there is no relevant Customer Data for the User Query, say so concisely '' @
     ''and still follow the previous rule about whether to use the formatted sections.\<newline>'' @
     ''\<newline>'' @
     ''Output language: Respond strictly in neutral Spanish.\<newline>'' @
     ''\<newline>'' @
     ''When the analysis mode applies, format the final response using the exact '' @
     ''structure below. Do not include any extra text, introductions, or conclusions '' @
     ''outside of this format.\<newline>'' @
     ''Format:\<newline>''\<close>

definition formatLines :: "string list" where
  \<open>formatLines =
     [''--- Summary [Provide a concise, high-level summary here.]\<newline>'',
      ''--- Main Pain Points & Needs [List the main pain points and needs using '' @
       ''bullet points.]\<newline>'',
      ''--- Actionable Feedback [List actionable feedback using bullet points.]\<newline>'',
      ''--- Top 3 Topics and (%) of Mentions [List the topics with their percentage '' @
       ''here, e.g., 1. Topic One (X%) 2. Topic Two (Y%) 3. Topic Three (Z%) ]\<newline>'',
      ''--- Examples of Verbatim for those main topics [Provide verbatim examples '' @
       ''here, clearly separating them by topic.]'']\<close>

definition templateFormat :: string where
  "templateFormat = concat formatLines"

definition templateTail :: string where
  "templateTail = templateRules @ templateFormat"

definition analystTemplate :: string where
  "analystTemplate =
     templateHead @ placeholderData @ templateMid @ placeholderQuery @ templateTail"

definition buildAnalystPrompt :: "string \<Rightarrow> string \<Rightarrow> string" where
  "buildAnalystPrompt userQuery csvContext =
     (let s = Replace1 analystTemplate placeholderData csvContext;
          s = Replace1 s placeholderQuery userQuery
      in s)"

definition analystKeywords :: "string list" where
  "analystKeywords =
     [''analiza'', ''an'' @ [CHR 0xC3, CHR 0xA1] @ ''lisis'', ''analysis'', ''analizar'',
      ''insights'', ''resumen'', ''summary'',
      ''puntos de dolor'', ''pain points'', ''temas'', ''topics'', ''top 3'', ''top3'', ''%'',
      ''porcentaje'',
      ''frecuencia'', ''tendencias'', ''trends'', ''verbatim'', ''citas'', ''quotes'',
      ''encuesta'', ''surveys'',
      ''feedback'', ''quejas'', ''needs'', ''necesidades'', ''social'', ''menciones'',
      ''cluster'', ''tema'',
      ''csv'', ''datos'', ''data'']"

text \<open>The loop over the keywords (the list \<open>keywords\<close> of the source) returns at the first one found.\<close>

fun anyKeyword :: "string \<Rightarrow> string list \<Rightarrow> bool" where
  "anyKeyword ql [] = False"
| "anyKeyword ql (kw # kws) = (if Contains ql kw then True else anyKeyword ql kws)"

definition isAnalystQuery :: "(nat \<Rightarrow> nat) \<Rightarrow> string \<Rightarrow> bool" where
  "isAnalystQuery caseTable q = (let ql = ToLower caseTable q in anyKeyword ql analystKeywords)"

text \<open>The section markers of the output format the template asks for.\<close>

definition sectionMarkers :: "string list" where
  "sectionMarkers =
     [''--- Summary'', ''--- Main Pain Points & Needs'', ''--- Actionable Feedback'',
      ''--- Top 3 Topics and (%) of Mentions'',
      ''--- Examples of Verbatim for those main topics'']"

section \<open>The outside world: clock and network\<close>

text \<open>
  The handlers read the clock (\<open>time.Now\<close>) and the network-backed provider sends one
  HTTP request per call of \<open>client.Do\<close>. Both are effects on a world that is passed
  through: the world knows what the \<open>n\<close>-th reading of the clock and the \<open>n\<close>-th request
  will return, and records how often each happened.
\<close>

record Payload =
  payloadModel :: string
  payloadInput :: "(string \<times> string) list"

record HttpRequest =
  reqMethod :: string
  reqURL :: string
  reqAuthorization :: string
  reqContentType :: string
  reqBody :: Payload

text \<open>
  A response, as the provider reads it: the status, the field \<open>error.message\<close> of the
  body decoded as an error (empty when absent or not decodable), and the body decoded
  as an output: the decoding error, or the \<open>text\<close> of every block
  \<open>output[i].content[j]\<close>.
\<close>

record HttpResponse =
  StatusCode :: nat
  Status :: string
  errorMessage :: string
  outputTexts :: "string + string list list"

datatype DoResult = DoError string | DoResponse HttpResponse

record World =
  clock :: "nat \<Rightarrow> time"
  ticks :: nat
  network :: "nat \<Rightarrow> HttpRequest \<Rightarrow> DoResult"
  sent :: "HttpRequest list"

definition timeNow :: "World \<Rightarrow> time \<times> World" where
  "timeNow w = (clock w (ticks w), w\<lparr>ticks := Suc (ticks w)\<rparr>)"

definition clientDo :: "HttpRequest \<Rightarrow> World \<Rightarrow> DoResult \<times> World" where
  "clientDo req w = (network w (length (sent w)) req, w\<lparr>sent := sent w @ [req]\<rparr>)"

section \<open>The chat providers (internal/provider)\<close>

record OpenAIProvider =
  apiKey :: string
  model :: string

datatype ChatProvider = OpenAI OpenAIProvider | MockProvider

fun roleString :: "Role \<Rightarrow> string" where
  "roleString RoleUser = ''user''"
| "roleString RoleAssistant = ''assistant''"

text \<open>A reply is \<open>Inr text\<close>, a failure is \<open>Inl message\<close> (the \<open>error\<close> of the source).\<close>

text \<open>
  \<open>OpenAIProvider.Reply\<close>, first part: the request it builds (the system preamble, the
  history, then the new input as a user item).
\<close>

definition replyRequest :: "OpenAIProvider \<Rightarrow> Message list \<Rightarrow> string \<Rightarrow> HttpRequest" where
  "replyRequest p history userInput =
     (let input = [(''system'', ''Eres Lola IA, un asistente breve y claro.'')];
          input = input @ map (\<lambda>m. (roleString (Role m), Content m)) history;
          input = input @ [(''user'', userInput)];
          payload = \<lparr>payloadModel = model p, payloadInput = input\<rparr>
      in \<lparr>reqMethod = ''POST'', reqURL = ''https://api.openai.com/v1/responses'',
          reqAuthorization = ''Bearer '' @ apiKey p,
          reqContentType = ''application/json'', reqBody = payload\<rparr>)"

text \<open>
  \<open>OpenAIProvider.Reply\<close>, second part: what it makes of the result of \<open>client.Do\<close>.
\<close>

definition readResult :: "DoResult \<Rightarrow> string + string" where
  "readResult res =
     (case res of
        DoError err \<Rightarrow> Inl err
      | DoResponse resp \<Rightarrow>
          if StatusCode resp \<ge> 400 then
            (if errorMessage resp \<noteq> [] then Inl (errorMessage resp)
             else Inl (''openai error: '' @ Status resp))
          else
            (case outputTexts resp of
               Inl err \<Rightarrow> Inl err
             | Inr out \<Rightarrow>
                 if length out > 0 \<and> length (out ! 0) > 0 then Inr (out ! 0 ! 0)
                 else Inl (''respuesta vac'' @ [CHR 0xC3, CHR 0xAD] @ ''a de OpenAI'')))"

definition OpenAIReply ::
  "OpenAIProvider \<Rightarrow> Message list \<Rightarrow> string \<Rightarrow> World \<Rightarrow> (string + string) \<times> World" where
  "OpenAIReply p history userInput w =
     (case clientDo (replyRequest p history userInput) w of
        (res, w) \<Rightarrow> (readResult res, w))"

definition MockReply :: "Message list \<Rightarrow> string \<Rightarrow> string + string" where
  \<open>MockReply history userInput = Inr (''Entendido. (mock) Me pediste: "'' @ userInput @ ''"'')\<close>

fun Model :: "ChatProvider \<Rightarrow> string" where
  "Model (OpenAI p) = model p"
| "Model MockProvider = ''mock-lola-ia''"

fun Reply :: "ChatProvider \<Rightarrow> Message list \<Rightarrow> string \<Rightarrow> World \<Rightarrow> (string + string) \<times> World" where
  "Reply (OpenAI p) history userInput w = OpenAIReply p history userInput w"
| "Reply MockProvider history userInput w = (MockReply history userInput, w)"

section \<open>The HTTP handlers (main.go)\<close>

text \<open>
  A handler takes the result of binding the request body (\<open>Inl\<close> the binding error), the
  store and the world, and returns the response with the store and the world after it.
  The body of a response is one constructor per JSON shape the handlers write.
\<close>

datatype Body =
    ErrorBody string
  | ErrorMaxBody string nat
  | OkBody
  | TotalBody nat
  | UploadFilesResponse nat nat
  | SendMessageResponse Message string
  | FilesBody "KnowledgeFile list"
  | ChatHistory "Message list"

record Response =
  status :: nat
  body :: Body

definition useAnalyst :: bool where "useAnalyst = True"

text \<open>
  The prompt \<open>POST /api/messages\<close> builds for the provider (the block of the handler that
  assigns \<open>prompt\<close>); \<open>mem\<close> is the store after the user's message was appended.
\<close>

definition buildPrompt :: "(nat \<Rightarrow> nat) \<Rightarrow> string \<Rightarrow> MemoryStore \<Rightarrow> string" where
  "buildPrompt caseTable content mem =
     (if useAnalyst \<and> isAnalystQuery caseTable content
      then (let csvCtx = buildFilesContext mem in buildAnalystPrompt content csvCtx)
      else content)"

definition postMessages ::
  "(nat \<Rightarrow> nat) \<Rightarrow> ChatProvider \<Rightarrow> string + SendMessageRequest \<Rightarrow> MemoryStore \<times> World \<Rightarrow>
     Response \<times> MemoryStore \<times> World" where
  "postMessages caseTable chat bound st =
     (case st of (mem, w) \<Rightarrow>
      case bound of
        Inl err \<Rightarrow> (\<lparr>status = 400, body = ErrorBody ''content requerido''\<rparr>, mem, w)
      | Inr req \<Rightarrow>
          if reqContent req = '''' then
            (\<lparr>status = 400, body = ErrorBody ''content requerido''\<rparr>, mem, w)
          else
            (case timeNow w of (now, w) \<Rightarrow>
             let userMsg = \<lparr>Role = RoleUser, Content = reqContent req, CreatedAt = now\<rparr>;
                 mem = Append userMsg mem;
                 prompt = buildPrompt caseTable (reqContent req) mem
             in case Reply chat (AllMessages mem) prompt w of
                  (Inl err, w) \<Rightarrow> (\<lparr>status = 502, body = ErrorBody err\<rparr>, mem, w)
                | (Inr replyText, w) \<Rightarrow>
                    (case timeNow w of (now, w) \<Rightarrow>
                     let assistantMsg =
                           \<lparr>Role = RoleAssistant, Content = replyText, CreatedAt = now\<rparr>;
                         mem = Append assistantMsg mem
                     in (\<lparr>status = 200, body = SendMessageResponse assistantMsg (Model chat)\<rparr>,
                         mem, w))))"

definition resetGreeting :: string where
  "resetGreeting =
     ''He reiniciado la conversaci'' @ [CHR 0xC3, CHR 0xB3] @ ''n. '' @ [CHR 0xC2, CHR 0xBF] @
     ''En qu'' @ [CHR 0xC3, CHR 0xA9] @ '' te ayudo?''"

definition postReset :: "MemoryStore \<times> World \<Rightarrow> Response \<times> MemoryStore \<times> World" where
  "postReset st =
     (case st of (mem, w) \<Rightarrow>
      let mem = Reset mem in
      case timeNow w of (now, w) \<Rightarrow>
      let mem = SeedAssistantHello now resetGreeting mem
      in (\<lparr>status = 200, body = OkBody\<rparr>, mem, w))"

text \<open>
  \<open>POST /api/files\<close>. A panic inside \<open>AddFiles\<close> would leave the handler without a
  result of its own: the value \<open>None\<close>.
\<close>

definition postFiles ::
  "string + UploadFilesRequest \<Rightarrow> MemoryStore \<times> World \<Rightarrow> (Response \<times> MemoryStore \<times> World) option" where
  "postFiles bound st =
     (case st of (mem, w) \<Rightarrow>
      case bound of
        Inl err \<Rightarrow>
          Some (\<lparr>status = 400,
                  body = ErrorBody (''JSON inv'' @ [CHR 0xC3, CHR 0xA1] @ ''lido o vac'' @
                                    [CHR 0xC3, CHR 0xAD] @ ''o'')\<rparr>, mem, w)
      | Inr req \<Rightarrow>
          if length (Files req) = 0 then
            Some (\<lparr>status = 400, body = ErrorBody ''files requerido''\<rparr>, mem, w)
          else
            (let current = length (ListFiles mem);
                 incoming = length (Files req)
             in if current + incoming > filesMax then
                  Some (\<lparr>status = 413,
                          body = ErrorMaxBody (''se excede el m'' @ [CHR 0xC3, CHR 0xA1] @
                                               ''ximo de archivos'') filesMax\<rparr>, mem, w)
                else
                  (case AddFiles (Files req) mem of
                     None \<Rightarrow> None
                   | Some (tot, mem) \<Rightarrow>
                       Some (\<lparr>status = 200,
                               body = UploadFilesResponse (length (Files req)) tot\<rparr>, mem, w))))"

definition deleteFiles :: "MemoryStore \<times> World \<Rightarrow> Response \<times> MemoryStore \<times> World" where
  "deleteFiles st =
     (case st of (mem, w) \<Rightarrow> (\<lparr>status = 200, body = OkBody\<rparr>, ClearFiles mem, w))"

definition deleteFile :: "string \<Rightarrow> MemoryStore \<times> World \<Rightarrow> Response \<times> MemoryStore \<times> World" where
  "deleteFile name st =
     (case st of (mem, w) \<Rightarrow>
      case RemoveFile name mem of (left, mem) \<Rightarrow> (\<lparr>status = 200, body = TotalBody left\<rparr>, mem, w))"

definition getMessages :: "MemoryStore \<times> World \<Rightarrow> Response \<times> MemoryStore \<times> World" where
  "getMessages st =
     (case st of (mem, w) \<Rightarrow> (\<lparr>status = 200, body = ChatHistory (AllMessages mem)\<rparr>, mem, w))"

definition getFiles :: "MemoryStore \<times> World \<Rightarrow> Response \<times> MemoryStore \<times> World" where
  "getFiles st =
     (case st of (mem, w) \<Rightarrow> (\<lparr>status = 200, body = FilesBody (ListFiles mem)\<rparr>, mem, w))"

section \<open>Example data\<close>

text \<open>
  A world whose clock counts its readings and whose network refuses the first request
  and would answer a second one.
\<close>

definition okResponse :: HttpResponse where
  "okResponse =
     \<lparr>StatusCode = 200, Status = ''200 OK'', errorMessage = [],
      outputTexts = Inr [[''hola'']]\<rparr>"

text \<open>
  The error of a request that could not be sent, as \<open>client.Do\<close> words it (the
  transport's error wrapped with the method and the URL).
\<close>

definition dialError :: string where
  \<open>dialError =
     ''Post "https://api.openai.com/v1/responses": '' @
     ''dial tcp: lookup api.openai.com: no such host''\<close>

definition flakyWorld :: World where
  "flakyWorld =
     \<lparr>clock = (\<lambda>n. n), ticks = 0,
      network = (\<lambda>n req. if n = 0 then DoError dialError else DoResponse okResponse),
      sent = []\<rparr>"




text \<open>Fifty-one files with different names.\<close>

definition manyFiles :: "KnowledgeFile list" where
  "manyFiles = map (\<lambda>n. \<lparr>Name = natDigits n, Size = 0, Text = []\<rparr>) [0..<51]"

text \<open>Four files of 20 KB of ASCII text each: together they use up the total budget.\<close>

definition bigFile :: "string \<Rightarrow> KnowledgeFile" where
  "bigFile name =
     \<lparr>Name = name, Size = 20480, Text = replicate maxPerFileBytes (CHR ''a'')\<rparr>"

definition fullStore :: MemoryStore where
  "fullStore =
     \<lparr>messages = [],
      knowledge = [bigFile ''a.csv'', bigFile ''b.csv'', bigFile ''c.csv'', bigFile ''d.csv'']\<rparr>"

text \<open>A file whose text ends in the first byte of a two-byte character.\<close>

definition cutFile :: KnowledgeFile where
  "cutFile = \<lparr>Name = ''a.csv'', Size = 4, Text = ''x,y'' @ [CHR 0xC3]\<rparr>"

text \<open>A store whose one file has the query placeholder of the template as its text.\<close>

definition trapStore :: MemoryStore where
  "trapStore =
     \<lparr>messages = [], knowledge = [\<lparr>Name = ''q.csv'', Size = 119, Text = placeholderQuery\<rparr>]\<rparr>"

section \<open>Properties of the store\<close>

subsection \<open>RemoveFile is a filter\<close>

lemma removeLoop_filter:
  "j \<le> i \<Longrightarrow> i \<le> length arr \<Longrightarrow> removeLoop name arr i j = (arr', j') \<Longrightarrow>
     length arr' = length arr \<and> j' \<le> length arr' \<and>
     take j' arr' = take j arr @ filter (\<lambda>f. Name f \<noteq> name) (drop i arr)"
proof (induction name arr i j arbitrary: arr' j' rule: removeLoop.induct)
  case (1 name arr i j)
  show ?case
  proof (cases "i < length arr")
    case False
    with "1.prems"(3) have "arr' = arr" "j' = j"
      by (simp_all add: removeLoop.simps[of name arr i j])
    with "1.prems"(1,2) False show ?thesis by simp
  next
    case True
    note lt = this
    have dr: "drop i arr = arr ! i # drop (Suc i) arr"
      using lt by (simp add: Cons_nth_drop_Suc)
    show ?thesis
    proof (cases "Name (arr ! i) \<noteq> name")
      case True
      with lt "1.prems" have rec: "removeLoop name (arr[j := arr ! i]) (Suc i) (Suc j) = (arr', j')"
        by (simp add: removeLoop.simps[of name arr i j] Let_def)
      from "1.IH"(1)[OF lt refl True _ _ rec] "1.prems"(1) lt
      have ih: "length arr' = length arr" "j' \<le> length arr'"
        "take j' arr' = take (Suc j) (arr[j := arr ! i]) @
           filter (\<lambda>f. Name f \<noteq> name) (drop (Suc i) (arr[j := arr ! i]))"
        by simp_all
      have jl: "j < length arr" using "1.prems"(1) lt by simp
      have t: "take (Suc j) (arr[j := arr ! i]) = take j arr @ [arr ! i]"
        using jl by (simp add: take_Suc_conv_app_nth)
      have d: "drop (Suc i) (arr[j := arr ! i]) = drop (Suc i) arr"
        using "1.prems"(1) by simp
      show ?thesis using ih t d dr True by simp
    next
      case False
      with lt "1.prems" have rec: "removeLoop name arr (Suc i) j = (arr', j')"
        by (simp add: removeLoop.simps[of name arr i j] Let_def)
      from "1.IH"(2)[OF lt refl _ _ _ rec] False "1.prems"(1) lt
      have ih: "length arr' = length arr" "j' \<le> length arr'"
        "take j' arr' = take j arr @ filter (\<lambda>f. Name f \<noteq> name) (drop (Suc i) arr)"
        by simp_all
      show ?thesis using ih dr False by simp
    qed
  qed
qed

lemma RemoveFile_filter:
  "RemoveFile name s =
     (length (filter (\<lambda>f. Name f \<noteq> name) (knowledge s)),
      s\<lparr>knowledge := filter (\<lambda>f. Name f \<noteq> name) (knowledge s)\<rparr>)"
proof -
  obtain arr j where r: "removeLoop name (knowledge s) 0 0 = (arr, j)"
    by (cases "removeLoop name (knowledge s) 0 0")
  from removeLoop_filter[OF _ _ r]
  have le: "j \<le> length arr"
    and tk: "take j arr = filter (\<lambda>f. Name f \<noteq> name) (knowledge s)"
    by simp_all
  from le have "length (take j arr) = j" by simp
  with tk have "length (filter (\<lambda>f. Name f \<noteq> name) (knowledge s)) = j" by simp
  with tk le show ?thesis by (simp add: RemoveFile_def r Let_def min_absorb2)
qed

subsection \<open>AddFiles is an upsert by name\<close>

lemma idxOk_empty: "idxOk [] Map.empty"
  by (simp add: idxOk_def)

lemma idxOk_snoc:
  assumes "idxOk ks m"
  shows "idxOk (ks @ [f]) (m(Name f \<mapsto> length ks))"
proof -
  have "i < length (ks @ [f]) \<and> Name ((ks @ [f]) ! i) = n"
    if h: "(m(Name f \<mapsto> length ks)) n = Some i" for n i
  proof (cases "n = Name f")
    case True
    with h have "i = length ks" by simp
    with True show ?thesis by simp
  next
    case False
    with h have "m n = Some i" by simp
    with assms have "i < length ks" "Name (ks ! i) = n" by (auto simp: idxOk_def)
    then show ?thesis by (simp add: nth_append)
  qed
  moreover have "(m(Name f \<mapsto> length ks)) (Name g) \<noteq> None" if "g \<in> set (ks @ [f])" for g
    using that assms by (auto simp: idxOk_def)
  ultimately show ?thesis unfolding idxOk_def by blast
qed

lemma idxOk_update:
  assumes "idxOk ks m" "m (Name f) = Some idx"
  shows "idxOk (ks[idx := f]) m"
proof -
  from assms have b: "idx < length ks" "Name (ks ! idx) = Name f" by (auto simp: idxOk_def)
  have "i < length (ks[idx := f]) \<and> Name (ks[idx := f] ! i) = n" if h: "m n = Some i" for n i
  proof -
    from h assms(1) have a: "i < length ks" "Name (ks ! i) = n" by (auto simp: idxOk_def)
    show ?thesis using a b by (cases "i = idx") auto
  qed
  moreover have "m (Name g) \<noteq> None" if "g \<in> set (ks[idx := f])" for g
  proof -
    from that have "g = f \<or> g \<in> set ks" using set_update_subset_insert by fastforce
    with assms show ?thesis by (auto simp: idxOk_def)
  qed
  ultimately show ?thesis unfolding idxOk_def by blast
qed

lemma idxOk_names_update:
  assumes "idxOk ks m" "m (Name f) = Some idx"
  shows "map Name (ks[idx := f]) = map Name ks"
proof -
  from assms have "idx < length ks" "Name (ks ! idx) = Name f" by (auto simp: idxOk_def)
  then show ?thesis by (simp add: map_update list_update_same_conv)
qed

lemma idxOk_None:
  assumes "idxOk ks m" "m n = None"
  shows "n \<notin> set (map Name ks)"
  using assms by (auto simp: idxOk_def)

lemma idxOk_Some:
  assumes "idxOk ks m" "n \<in> set (map Name ks)"
  shows "\<exists>i. m n = Some i \<and> i < length ks \<and> Name (ks ! i) = n"
proof -
  from assms obtain f where "f \<in> set ks" "Name f = n" by auto
  with assms(1) obtain i where "m n = Some i" by (auto simp: idxOk_def)
  with assms(1) show ?thesis by (auto simp: idxOk_def)
qed

lemma indexNames_idxOk:
  "idxOk pre m \<Longrightarrow> i = length pre \<Longrightarrow> idxOk (pre @ fs) (indexNames i fs m)"
proof (induction fs arbitrary: pre m i)
  case Nil
  then show ?case by simp
next
  case (Cons f fs)
  have ok: "idxOk (pre @ [f]) (m(Name f \<mapsto> length pre))"
    using idxOk_snoc[OF Cons.prems(1)] .
  have "idxOk ((pre @ [f]) @ fs) (indexNames (Suc (length pre)) fs (m(Name f \<mapsto> length pre)))"
    by (rule Cons.IH[OF ok]) simp
  then show ?case using Cons.prems(2) by simp
qed

lemma indexNames_ok: "idxOk ks (indexNames 0 ks Map.empty)"
  using indexNames_idxOk[OF idxOk_empty, of 0 ks] by simp

text \<open>
  The second loop never panics. It keeps the names already stored at their positions and
  appends each new name once, in the order of its first occurrence in the batch.
\<close>

lemma upsertFiles_spec:
  "idxOk ks m \<Longrightarrow>
     \<exists>ks' m' new. upsertFiles fs (ks, m) = Some (ks', m') \<and> idxOk ks' m' \<and>
       map Name ks' = map Name ks @ new \<and> distinct new \<and>
       set new = set (map Name fs) - set (map Name ks)"
proof (induction fs arbitrary: ks m)
  case Nil
  then show ?case by simp
next
  case (Cons f fs)
  show ?case
  proof (cases "m (Name f)")
    case (Some idx)
    with Cons.prems have lt: "idx < length ks" by (auto simp: idxOk_def)
    have ok: "idxOk (ks[idx := f]) m" using idxOk_update[OF Cons.prems Some] .
    have nm: "map Name (ks[idx := f]) = map Name ks"
      using idxOk_names_update[OF Cons.prems Some] .
    from Cons.IH[OF ok] obtain ks' m' new where
      r: "upsertFiles fs (ks[idx := f], m) = Some (ks', m')" "idxOk ks' m'"
         "map Name ks' = map Name (ks[idx := f]) @ new" "distinct new"
         "set new = set (map Name fs) - set (map Name (ks[idx := f]))"
      by blast
    have mem: "Name f \<in> set (map Name ks)"
    proof -
      from Cons.prems Some have "Name (ks ! idx) = Name f" by (auto simp: idxOk_def)
      with lt show ?thesis by (metis length_map nth_map nth_mem)
    qed
    have "upsertFiles (f # fs) (ks, m) = Some (ks', m')" using Some lt r(1) by simp
    moreover have "set new = set (map Name (f # fs)) - set (map Name ks)"
      using r(5) nm mem by auto
    ultimately show ?thesis using r(2,3,4) nm by auto
  next
    case None
    have fresh: "Name f \<notin> set (map Name ks)" using idxOk_None[OF Cons.prems None] .
    have ok: "idxOk (ks @ [f]) (m(Name f \<mapsto> length ks))" using idxOk_snoc[OF Cons.prems] .
    from Cons.IH[OF ok] obtain ks' m' new where
      r: "upsertFiles fs (ks @ [f], m(Name f \<mapsto> length ks)) = Some (ks', m')" "idxOk ks' m'"
         "map Name ks' = map Name (ks @ [f]) @ new" "distinct new"
         "set new = set (map Name fs) - set (map Name (ks @ [f]))"
      by blast
    have "upsertFiles (f # fs) (ks, m) = Some (ks', m')" using None r(1) by (simp add: Let_def)
    moreover have "map Name ks' = map Name ks @ (Name f # new)" using r(3) by simp
    moreover have "distinct (Name f # new)" using r(4,5) by auto
    moreover have "set (Name f # new) = set (map Name (f # fs)) - set (map Name ks)"
      using r(5) fresh by auto
    ultimately show ?thesis using r(2) by blast
  qed
qed

lemma AddFiles_spec:
  "\<exists>ks' new. AddFiles fs s = Some (length ks', s\<lparr>knowledge := ks'\<rparr>) \<and>
     map Name ks' = map Name (knowledge s) @ new \<and> distinct new \<and>
     set new = set (map Name fs) - set (map Name (knowledge s))"
proof -
  from upsertFiles_spec[OF indexNames_ok[of "knowledge s"], of fs]
  obtain ks' m' new where
    r: "upsertFiles fs (knowledge s, indexNames 0 (knowledge s) Map.empty) = Some (ks', m')"
       "map Name ks' = map Name (knowledge s) @ new" "distinct new"
       "set new = set (map Name fs) - set (map Name (knowledge s))"
    by blast
  then show ?thesis by (auto simp: AddFiles_def)
qed

lemma AddFiles_length_le:
  assumes "AddFiles fs s = Some (n, s')"
  shows "n = length (knowledge s')" "length (knowledge s) \<le> n"
    "n \<le> length (knowledge s) + length fs" "messages s' = messages s"
proof -
  from AddFiles_spec[of fs s] assms obtain ks' new where
    r: "n = length ks'" "s' = s\<lparr>knowledge := ks'\<rparr>"
       "map Name ks' = map Name (knowledge s) @ new" "distinct new"
       "set new = set (map Name fs) - set (map Name (knowledge s))"
    by auto
  from r(3) have len: "length ks' = length (knowledge s) + length new"
    by (metis length_append length_map)
  have "card (set new) \<le> card (set (map Name fs))"
    using r(5) by (intro card_mono) auto
  also have "\<dots> \<le> length fs" using card_length[of "map Name fs"] by simp
  finally have "length new \<le> length fs" using r(4) by (simp add: distinct_card)
  with len r show "n = length (knowledge s')" "length (knowledge s) \<le> n"
    "n \<le> length (knowledge s) + length fs" "messages s' = messages s"
    by simp_all
qed

lemma AddFiles_distinct:
  assumes "AddFiles fs s = Some (n, s')" "distinct (map Name (knowledge s))"
  shows "distinct (map Name (knowledge s'))"
proof -
  from AddFiles_spec[of fs s] assms(1) obtain ks' new where
    r: "s' = s\<lparr>knowledge := ks'\<rparr>"
       "map Name ks' = map Name (knowledge s) @ new" "distinct new"
       "set new = set (map Name fs) - set (map Name (knowledge s))"
    by auto
  then show ?thesis using assms(2) by auto
qed

subsection \<open>Messages\<close>

lemma AllMessages_fold_Append: "AllMessages (fold Append ms s) = AllMessages s @ ms"
  by (induction ms arbitrary: s) (simp_all add: AllMessages_def Append_def)

lemma applyOp_total: "\<exists>s'. applyOp op s = Some s'"
proof (cases op)
  case (OpAddFiles fs)
  from AddFiles_spec[of fs s] show ?thesis using OpAddFiles by auto
qed simp_all

lemma applyOps_total: "\<exists>s'. applyOps ops s = Some s'"
proof (induction ops arbitrary: s)
  case Nil
  show ?case by simp
next
  case (Cons op ops)
  from applyOp_total[of op s] obtain s1 where "applyOp op s = Some s1" ..
  with Cons.IH[of s1] show ?case by simp
qed

lemma applyOp_messages:
  assumes "applyOp op s = Some s'" "\<not> isReset op"
  shows "AllMessages s' = AllMessages s @ appendedBy op"
proof (cases op)
  case (OpAddFiles fs)
  with assms(1) obtain n where "AddFiles fs s = Some (n, s')" by auto
  from AddFiles_length_le(4)[OF this] OpAddFiles show ?thesis by (simp add: AllMessages_def)
next
  case (OpRemoveFile name)
  with assms(1) show ?thesis by (auto simp: RemoveFile_filter AllMessages_def)
qed (use assms in \<open>auto simp: AllMessages_def Append_def ClearFiles_def\<close>)

lemma applyOps_messages:
  "applyOps ops s = Some s' \<Longrightarrow> \<not> list_ex isReset ops \<Longrightarrow>
     AllMessages s' = AllMessages s @ concat (map appendedBy ops)"
proof (induction ops arbitrary: s)
  case Nil
  then show ?case by simp
next
  case (Cons op ops)
  from Cons.prems(1) obtain s1 where s1: "applyOp op s = Some s1" "applyOps ops s1 = Some s'"
    by (auto split: option.splits)
  from Cons.prems(2) have nr: "\<not> isReset op" "\<not> list_ex isReset ops" by simp_all
  from applyOp_messages[OF s1(1) nr(1)] Cons.IH[OF s1(2) nr(2)] show ?case by simp
qed

text \<open>
  Claim C7. Listing the messages after a sequence of appends returns the messages that
  were there followed by the appended ones, in the order of the appends; from the new
  store it returns exactly the appended messages. No operation of the store other than
  \<open>Reset\<close> deletes or reorders a message: after any operations without a reset the list is
  the old list followed by the messages appended since, in order.
\<close>

theorem C7_messages_in_append_order:
  "AllMessages (fold Append ms s) = AllMessages s @ ms \<and>
   AllMessages (fold Append ms NewMemoryStore) = ms \<and>
   (\<not> list_ex isReset ops \<longrightarrow>
      (\<exists>s'. applyOps ops s = Some s' \<and> AllMessages s' = AllMessages s @ concat (map appendedBy ops)))"
proof (intro conjI impI)
  show "AllMessages (fold Append ms s) = AllMessages s @ ms" by (rule AllMessages_fold_Append)
  show "AllMessages (fold Append ms NewMemoryStore) = ms"
    by (simp add: AllMessages_fold_Append) (simp add: AllMessages_def NewMemoryStore_def)
  assume nr: "\<not> list_ex isReset ops"
  from applyOps_total[of ops s] obtain s' where s': "applyOps ops s = Some s'" ..
  from applyOps_messages[OF s' nr] s'
  show "\<exists>s'. applyOps ops s = Some s' \<and> AllMessages s' = AllMessages s @ concat (map appendedBy ops)"
    by blast
qed

theorem C7_messages_in_append_order_witness:
  "AllMessages (fold Append
          [\<lparr>Role = RoleUser, Content = ''hola'', CreatedAt = 1\<rparr>,
           \<lparr>Role = RoleAssistant, Content = ''qu'', CreatedAt = 2\<rparr>] NewMemoryStore) =
     [\<lparr>Role = RoleUser, Content = ''hola'', CreatedAt = 1\<rparr>,
      \<lparr>Role = RoleAssistant, Content = ''qu'', CreatedAt = 2\<rparr>] \<and>
   \<not> list_ex isReset
        [OpAppend \<lparr>Role = RoleUser, Content = ''hola'', CreatedAt = 1\<rparr>,
         OpRemoveFile ''a.csv'',
         OpAppend \<lparr>Role = RoleAssistant, Content = ''qu'', CreatedAt = 2\<rparr>] \<and>
   (\<exists>s'. applyOps
           [OpAppend \<lparr>Role = RoleUser, Content = ''hola'', CreatedAt = 1\<rparr>,
            OpRemoveFile ''a.csv'',
            OpAppend \<lparr>Role = RoleAssistant, Content = ''qu'', CreatedAt = 2\<rparr>]
           NewMemoryStore = Some s' \<and>
         AllMessages s' =
           [\<lparr>Role = RoleUser, Content = ''hola'', CreatedAt = 1\<rparr>,
            \<lparr>Role = RoleAssistant, Content = ''qu'', CreatedAt = 2\<rparr>])"
  using C7_messages_in_append_order
    [of "[\<lparr>Role = RoleUser, Content = ''hola'', CreatedAt = 1\<rparr>,
          \<lparr>Role = RoleAssistant, Content = ''qu'', CreatedAt = 2\<rparr>]"
        NewMemoryStore
        "[OpAppend \<lparr>Role = RoleUser, Content = ''hola'', CreatedAt = 1\<rparr>,
          OpRemoveFile ''a.csv'',
          OpAppend \<lparr>Role = RoleAssistant, Content = ''qu'', CreatedAt = 2\<rparr>]"]
  by (simp add: AllMessages_def NewMemoryStore_def)

text \<open>
  Claim C8. Whatever the conversation held, the reset operation (\<open>Reset\<close> followed by
  \<open>SeedAssistantHello\<close>, as \<open>POST /api/reset\<close> performs it) leaves exactly one message,
  the assistant's greeting; the handler answers 200 and leaves the knowledge files as
  they were.
\<close>

theorem C8_reset_leaves_one_greeting:
  "AllMessages (SeedAssistantHello now txt (Reset s)) =
     [\<lparr>Role = RoleAssistant, Content = txt, CreatedAt = now\<rparr>] \<and>
   (\<exists>mem' w'. postReset (mem, w) = (\<lparr>status = 200, body = OkBody\<rparr>, mem', w') \<and>
      AllMessages mem' = [\<lparr>Role = RoleAssistant, Content = resetGreeting, CreatedAt = clock w (ticks w)\<rparr>] \<and>
      length (AllMessages mem') = 1 \<and> knowledge mem' = knowledge mem)"
  by (simp add: AllMessages_def SeedAssistantHello_def Reset_def Append_def postReset_def timeNow_def)

subsection \<open>Knowledge files\<close>

lemma filter_absent:
  "name \<notin> set (map Name ks) \<Longrightarrow> filter (\<lambda>f. Name f \<noteq> name) ks = ks"
  by (induction ks) auto

text \<open>
  Claim C9. Removing a name that no stored file has leaves the store as it was (same
  files in the same order, messages untouched) and returns the number of files;
  \<open>DELETE /api/files/:name\<close> then answers 200 with that number as \<open>total\<close>.
\<close>

theorem C9_remove_absent_name:
  assumes "name \<notin> set (map Name (knowledge s))"
  shows "RemoveFile name s = (length (knowledge s), s) \<and>
         deleteFile name (s, w) =
           (\<lparr>status = 200, body = TotalBody (length (knowledge s))\<rparr>, s, w)"
  using filter_absent[OF assms] by (simp add: RemoveFile_filter deleteFile_def)

theorem C9_remove_absent_name_witness:
  "''b.csv'' \<notin> set (map Name [\<lparr>Name = ''a.csv'', Size = 7, Text = ''x,y''\<rparr>]) \<and>
   RemoveFile ''b.csv''
     \<lparr>messages = [], knowledge = [\<lparr>Name = ''a.csv'', Size = 7, Text = ''x,y''\<rparr>]\<rparr> =
     (1, \<lparr>messages = [], knowledge = [\<lparr>Name = ''a.csv'', Size = 7, Text = ''x,y''\<rparr>]\<rparr>)"
  using C9_remove_absent_name
    [of "''b.csv''"
        "\<lparr>messages = [], knowledge = [\<lparr>Name = ''a.csv'', Size = 7, Text = ''x,y''\<rparr>]\<rparr>"]
  by simp

lemma applyOp_distinct:
  assumes "applyOp op s = Some s'" "distinct (map Name (knowledge s))"
  shows "distinct (map Name (knowledge s'))"
proof (cases op)
  case (OpAddFiles fs)
  with assms(1) obtain n where "AddFiles fs s = Some (n, s')" by auto
  from AddFiles_distinct[OF this assms(2)] show ?thesis .
next
  case (OpRemoveFile name)
  with assms show ?thesis by (auto simp: RemoveFile_filter distinct_map_filter)
qed (use assms in \<open>auto simp: Append_def Reset_def ClearFiles_def\<close>)

lemma applyOps_distinct:
  "applyOps ops s = Some s' \<Longrightarrow> distinct (map Name (knowledge s)) \<Longrightarrow>
     distinct (map Name (knowledge s'))"
proof (induction ops arbitrary: s)
  case Nil
  then show ?case by simp
next
  case (Cons op ops)
  from Cons.prems(1) obtain s1 where s1: "applyOp op s = Some s1" "applyOps ops s1 = Some s'"
    by (auto split: option.splits)
  from Cons.IH[OF s1(2) applyOp_distinct[OF s1(1) Cons.prems(2)]] show ?case .
qed

text \<open>
  Claim C6. From the empty store, every sequence of store operations (uploads of
  arbitrary batches, also batches that repeat a name, removals, clearing; appends and
  resets of the conversation as well) runs to a store in which no two files share a
  name.
\<close>

theorem C6_file_names_unique:
  "\<exists>s. applyOps ops NewMemoryStore = Some s \<and> distinct (map Name (knowledge s))"
proof -
  from applyOps_total[of ops NewMemoryStore] obtain s where s: "applyOps ops NewMemoryStore = Some s" ..
  have "distinct (map Name (knowledge NewMemoryStore))" by (simp add: NewMemoryStore_def)
  from applyOps_distinct[OF s this] s show ?thesis by blast
qed

theorem C6_file_names_unique_witness:
  "\<exists>s. applyOps
         [OpAddFiles [\<lparr>Name = ''a.csv'', Size = 7, Text = ''x,y''\<rparr>,
                      \<lparr>Name = ''a.csv'', Size = 3, Text = ''1,2''\<rparr>,
                      \<lparr>Name = ''b.csv'', Size = 1, Text = ''z''\<rparr>],
          OpRemoveFile ''b.csv'',
          OpAddFiles [\<lparr>Name = ''a.csv'', Size = 0, Text = ''''\<rparr>]]
         NewMemoryStore = Some s \<and>
       distinct (map Name (knowledge s))"
  using C6_file_names_unique
    [of "[OpAddFiles [\<lparr>Name = ''a.csv'', Size = 7, Text = ''x,y''\<rparr>,
                      \<lparr>Name = ''a.csv'', Size = 3, Text = ''1,2''\<rparr>,
                      \<lparr>Name = ''b.csv'', Size = 1, Text = ''z''\<rparr>],
          OpRemoveFile ''b.csv'',
          OpAddFiles [\<lparr>Name = ''a.csv'', Size = 0, Text = ''''\<rparr>]]"]
  by simp

subsection \<open>Re-uploading a stored name\<close>

lemma find_snoc:
  "find P (xs @ [x]) = (case find P xs of Some y \<Rightarrow> Some y | None \<Rightarrow> if P x then Some x else None)"
  by (induction xs) auto

lemma find_None_names:
  "find (\<lambda>g. Name g = n) (rev fs) = None \<Longrightarrow> n \<notin> set (map Name fs)"
  by (auto simp: find_None_iff)

text \<open>
  One step of the second loop, seen through the names: they stay where they are, and the
  step stores \<open>f\<close> at the position of its name.
\<close>

lemma upsert_step:
  assumes ok: "idxOk ks m" and d: "distinct (map Name ks)"
  obtains ks1 m1 where
    "upsertFiles (f # fs) (ks, m) = upsertFiles fs (ks1, m1)" "idxOk ks1 m1"
    "distinct (map Name ks1)" "length ks \<le> length ks1"
    "\<And>i. i < length ks1 \<Longrightarrow> ks1 ! i = (if Name (ks1 ! i) = Name f then f else ks ! i)"
proof (cases "m (Name f)")
  case (Some idx)
  from ok Some have lt: "idx < length ks" and nm: "Name (ks ! idx) = Name f"
    by (auto simp: idxOk_def)
  have names: "map Name (ks[idx := f]) = map Name ks" using idxOk_names_update[OF ok Some] .
  have pos: "(ks[idx := f]) ! i = (if Name ((ks[idx := f]) ! i) = Name f then f else ks ! i)"
    if "i < length (ks[idx := f])" for i
  proof (cases "i = idx")
    case True
    with lt show ?thesis by simp
  next
    case False
    have "Name (ks ! i) \<noteq> Name f"
    proof
      assume "Name (ks ! i) = Name f"
      with nm have "map Name ks ! i = map Name ks ! idx" using that lt by simp
      with d that lt have "i = idx"
        using nth_eq_iff_index_eq[of "map Name ks" i idx] by simp
      with False show False ..
    qed
    with False show ?thesis by simp
  qed
  show ?thesis
  proof (rule that[of "ks[idx := f]" m])
    show "upsertFiles (f # fs) (ks, m) = upsertFiles fs (ks[idx := f], m)"
      using Some lt by simp
    show "idxOk (ks[idx := f]) m" using idxOk_update[OF ok Some] .
    show "distinct (map Name (ks[idx := f]))" using names d by simp
    show "length ks \<le> length (ks[idx := f])" by simp
  qed (rule pos)
next
  case None
  have fresh: "Name f \<notin> set (map Name ks)" using idxOk_None[OF ok None] .
  have pos: "(ks @ [f]) ! i = (if Name ((ks @ [f]) ! i) = Name f then f else ks ! i)"
    if "i < length (ks @ [f])" for i
  proof (cases "i < length ks")
    case True
    with fresh have "Name (ks ! i) \<noteq> Name f" by (metis length_map nth_map nth_mem)
    with True show ?thesis by (simp add: nth_append)
  next
    case False
    with that have "i = length ks" by simp
    then show ?thesis by simp
  qed
  show ?thesis
  proof (rule that[of "ks @ [f]" "m(Name f \<mapsto> length ks)"])
    show "upsertFiles (f # fs) (ks, m) = upsertFiles fs (ks @ [f], m(Name f \<mapsto> length ks))"
      using None by (simp add: Let_def)
    show "idxOk (ks @ [f]) (m(Name f \<mapsto> length ks))" using idxOk_snoc[OF ok] .
    show "distinct (map Name (ks @ [f]))" using fresh d by simp
    show "length ks \<le> length (ks @ [f])" by simp
  qed (rule pos)
qed

text \<open>
  What the second loop leaves at each position: the last file of the batch that has the
  name stored there, or the file that was there when the batch has none.
\<close>

lemma upsertFiles_content:
  "idxOk ks m \<Longrightarrow> distinct (map Name ks) \<Longrightarrow> upsertFiles fs (ks, m) = Some (ks', m') \<Longrightarrow>
     i < length ks' \<Longrightarrow>
     ks' ! i = (case find (\<lambda>g. Name g = Name (ks' ! i)) (rev fs) of
                  Some g \<Rightarrow> g | None \<Rightarrow> ks ! i)"
proof (induction fs arbitrary: ks m)
  case Nil
  then show ?case by simp
next
  case (Cons f fs)
  from upsert_step[OF Cons.prems(1,2), of f fs] obtain ks1 m1 where
    st: "upsertFiles (f # fs) (ks, m) = upsertFiles fs (ks1, m1)" "idxOk ks1 m1"
        "distinct (map Name ks1)"
        "\<And>j. j < length ks1 \<Longrightarrow> ks1 ! j = (if Name (ks1 ! j) = Name f then f else ks ! j)"
    by metis
  from st(1) Cons.prems(3) have run: "upsertFiles fs (ks1, m1) = Some (ks', m')" by simp
  note ih = Cons.IH[OF st(2,3) run Cons.prems(4)]
  let ?n = "Name (ks' ! i)"
  show ?case
  proof (cases "find (\<lambda>g. Name g = ?n) (rev fs)")
    case (Some g)
    with ih show ?thesis by (simp add: find_snoc)
  next
    case None
    with ih have eq: "ks' ! i = ks1 ! i" by simp
    from upsertFiles_spec[OF st(2), of fs] run obtain new where
      nm: "map Name ks' = map Name ks1 @ new" "set new = set (map Name fs) - set (map Name ks1)"
      by auto
    have notin: "?n \<notin> set new" using find_None_names[OF None] nm(2) by simp
    have lt: "i < length ks1"
    proof (rule ccontr)
      assume "\<not> i < length ks1"
      then have ge: "length ks1 \<le> i" by simp
      from nm(1) have len: "length ks' = length ks1 + length new"
        by (metis length_append length_map)
      have "map Name ks' ! i = new ! (i - length ks1)"
        using nm(1) ge by (simp add: nth_append)
      moreover have "i - length ks1 < length new" using len ge Cons.prems(4) by simp
      ultimately have "map Name ks' ! i \<in> set new" by simp
      with notin Cons.prems(4) show False by simp
    qed
    show ?thesis
    proof (cases "Name (ks1 ! i) = Name f")
      case True
      with st(4)[OF lt] have "ks1 ! i = f" by simp
      with eq have "ks' ! i = f" by simp
      then show ?thesis using None by (simp add: find_snoc)
    next
      case False
      with st(4)[OF lt] have "ks1 ! i = ks ! i" by simp
      with eq have e: "ks' ! i = ks ! i" by simp
      from False eq have "Name f \<noteq> Name (ks' ! i)" by auto
      then show ?thesis using None e by (simp add: find_snoc)
    qed
  qed
qed

lemma AddFiles_content:
  assumes "distinct (map Name (knowledge s))" "AddFiles fs s = Some (n, s')"
    "i < length (knowledge s')"
  shows "knowledge s' ! i =
           (case find (\<lambda>g. Name g = Name (knowledge s' ! i)) (rev fs) of
              Some g \<Rightarrow> g | None \<Rightarrow> knowledge s ! i)"
proof -
  from assms(2) obtain ks' m' where
    r: "upsertFiles fs (knowledge s, indexNames 0 (knowledge s) Map.empty) = Some (ks', m')"
       "s' = s\<lparr>knowledge := ks'\<rparr>"
    by (auto simp: AddFiles_def split: option.splits)
  from upsertFiles_content[OF indexNames_ok assms(1) r(1)] assms(3) r(2) show ?thesis by simp
qed

lemma AddFiles_single_present:
  assumes "Name f \<in> set (map Name (knowledge s))"
  shows "\<exists>i < length (knowledge s). Name (knowledge s ! i) = Name f \<and>
           AddFiles [f] s = Some (length (knowledge s), s\<lparr>knowledge := (knowledge s)[i := f]\<rparr>)"
proof -
  let ?ks = "knowledge s" and ?m = "indexNames 0 (knowledge s) Map.empty"
  from idxOk_Some[OF indexNames_ok assms] obtain i where
    i: "?m (Name f) = Some i" "i < length ?ks" "Name (?ks ! i) = Name f" by blast
  then have "upsertFiles [f] (?ks, ?m) = Some (?ks[i := f], ?m)" by simp
  then have "AddFiles [f] s = Some (length ?ks, s\<lparr>knowledge := ?ks[i := f]\<rparr>)"
    by (simp add: AddFiles_def)
  with i show ?thesis by blast
qed

lemma AddFiles_all_present:
  assumes "set (map Name fs) \<subseteq> set (map Name (knowledge s))"
  shows "\<exists>s'. AddFiles fs s = Some (length (knowledge s), s') \<and>
           map Name (knowledge s') = map Name (knowledge s) \<and> messages s' = messages s"
proof -
  from AddFiles_spec[of fs s] obtain ks' new where
    r: "AddFiles fs s = Some (length ks', s\<lparr>knowledge := ks'\<rparr>)"
       "map Name ks' = map Name (knowledge s) @ new"
       "set new = set (map Name fs) - set (map Name (knowledge s))"
    by blast
  from r(3) assms have "set new = {}" by auto
  then have "new = []" by simp
  with r(2) have nm: "map Name ks' = map Name (knowledge s)" by simp
  then have "length ks' = length (knowledge s)" by (metis length_map)
  with r(1) nm show ?thesis by simp
qed

lemma AddFiles_upsert:
  assumes "distinct (map Name (knowledge s))"
  shows "\<exists>n s'. AddFiles fs s = Some (n, s') \<and> messages s' = messages s \<and>
           n = length (knowledge s) + card (set (map Name fs) - set (map Name (knowledge s))) \<and>
           (\<forall>i < length (knowledge s).
              Name (knowledge s' ! i) = Name (knowledge s ! i) \<and>
              knowledge s' ! i =
                (case find (\<lambda>g. Name g = Name (knowledge s ! i)) (rev fs) of
                   Some g \<Rightarrow> g | None \<Rightarrow> knowledge s ! i))"
proof -
  from AddFiles_spec[of fs s] obtain ks' new where
    r: "AddFiles fs s = Some (length ks', s\<lparr>knowledge := ks'\<rparr>)"
       "map Name ks' = map Name (knowledge s) @ new" "distinct new"
       "set new = set (map Name fs) - set (map Name (knowledge s))"
    by blast
  let ?s' = "s\<lparr>knowledge := ks'\<rparr>"
  from r(2) have len: "length ks' = length (knowledge s) + length new"
    by (metis length_append length_map)
  from r(3,4) have n: "length new = card (set (map Name fs) - set (map Name (knowledge s)))"
    by (metis distinct_card)
  have pos: "Name (knowledge ?s' ! i) = Name (knowledge s ! i) \<and>
             knowledge ?s' ! i =
               (case find (\<lambda>g. Name g = Name (knowledge s ! i)) (rev fs) of
                  Some g \<Rightarrow> g | None \<Rightarrow> knowledge s ! i)"
    if i: "i < length (knowledge s)" for i
  proof -
    from i len have i': "i < length ks'" by simp
    have "map Name ks' ! i = map Name (knowledge s) ! i" using r(2) i by (simp add: nth_append)
    with i i' have nm: "Name (ks' ! i) = Name (knowledge s ! i)" by simp
    from AddFiles_content[OF assms r(1), of i] i' nm show ?thesis by simp
  qed
  have m: "messages ?s' = messages s" by simp
  from len n have c: "length ks' =
      length (knowledge s) + card (set (map Name fs) - set (map Name (knowledge s)))"
    by simp
  from pos have "\<forall>i < length (knowledge s).
      Name (knowledge ?s' ! i) = Name (knowledge s ! i) \<and>
      knowledge ?s' ! i =
        (case find (\<lambda>g. Name g = Name (knowledge s ! i)) (rev fs) of
           Some g \<Rightarrow> g | None \<Rightarrow> knowledge s ! i)"
    by blast
  with r(1) m c show ?thesis by blast
qed

text \<open>
  Claim C5. Uploading a file whose name is already stored replaces the stored file (its
  content and size) at the position it has, changes neither the number of files nor
  their order, and returns that number. For a batch of such files the names keep their
  order and the count is returned unchanged. In any batch, when the stored names are
  distinct, every stored position keeps its name and holds the last file of the batch
  with that name (or the file it held, when the batch has none), and the count grows by
  the number of new names only.
\<close>

theorem C5_reupload_replaces_in_place:
  assumes "Name f \<in> set (map Name (knowledge s))"
  shows "(\<exists>i < length (knowledge s). Name (knowledge s ! i) = Name f \<and>
            AddFiles [f] s =
              Some (length (knowledge s), s\<lparr>knowledge := (knowledge s)[i := f]\<rparr>)) \<and>
         (set (map Name fs) \<subseteq> set (map Name (knowledge s)) \<longrightarrow>
            (\<exists>s'. AddFiles fs s = Some (length (knowledge s), s') \<and>
               map Name (knowledge s') = map Name (knowledge s) \<and>
               messages s' = messages s)) \<and>
         (distinct (map Name (knowledge s)) \<longrightarrow>
            (\<exists>n s'. AddFiles fs s = Some (n, s') \<and> messages s' = messages s \<and>
               n = length (knowledge s) +
                   card (set (map Name fs) - set (map Name (knowledge s))) \<and>
               (\<forall>i < length (knowledge s).
                  Name (knowledge s' ! i) = Name (knowledge s ! i) \<and>
                  knowledge s' ! i =
                    (case find (\<lambda>g. Name g = Name (knowledge s ! i)) (rev fs) of
                       Some g \<Rightarrow> g | None \<Rightarrow> knowledge s ! i))))"
proof (intro conjI impI)
  show "\<exists>i < length (knowledge s). Name (knowledge s ! i) = Name f \<and>
          AddFiles [f] s = Some (length (knowledge s), s\<lparr>knowledge := (knowledge s)[i := f]\<rparr>)"
    using AddFiles_single_present[OF assms] .
next
  assume "set (map Name fs) \<subseteq> set (map Name (knowledge s))"
  then show "\<exists>s'. AddFiles fs s = Some (length (knowledge s), s') \<and>
      map Name (knowledge s') = map Name (knowledge s) \<and> messages s' = messages s"
    by (rule AddFiles_all_present)
next
  assume "distinct (map Name (knowledge s))"
  then show "\<exists>n s'. AddFiles fs s = Some (n, s') \<and> messages s' = messages s \<and>
      n = length (knowledge s) + card (set (map Name fs) - set (map Name (knowledge s))) \<and>
      (\<forall>i < length (knowledge s).
         Name (knowledge s' ! i) = Name (knowledge s ! i) \<and>
         knowledge s' ! i =
           (case find (\<lambda>g. Name g = Name (knowledge s ! i)) (rev fs) of
              Some g \<Rightarrow> g | None \<Rightarrow> knowledge s ! i))"
    by (rule AddFiles_upsert)
qed

theorem C5_reupload_replaces_in_place_witness:
  "Name \<lparr>Name = ''a.csv'', Size = 3, Text = ''9,9''\<rparr> \<in>
     set (map Name (knowledge
       \<lparr>messages = [],
        knowledge = [\<lparr>Name = ''a.csv'', Size = 7, Text = ''x,y''\<rparr>,
                     \<lparr>Name = ''b.csv'', Size = 1, Text = ''z''\<rparr>]\<rparr>)) \<and>
   AddFiles [\<lparr>Name = ''a.csv'', Size = 3, Text = ''9,9''\<rparr>]
     \<lparr>messages = [],
      knowledge = [\<lparr>Name = ''a.csv'', Size = 7, Text = ''x,y''\<rparr>,
                   \<lparr>Name = ''b.csv'', Size = 1, Text = ''z''\<rparr>]\<rparr> =
     Some (2, \<lparr>messages = [],
               knowledge = [\<lparr>Name = ''a.csv'', Size = 3, Text = ''9,9''\<rparr>,
                            \<lparr>Name = ''b.csv'', Size = 1, Text = ''z''\<rparr>]\<rparr>)"
  using C5_reupload_replaces_in_place
    [of "\<lparr>Name = ''a.csv'', Size = 3, Text = ''9,9''\<rparr>"
        "\<lparr>messages = [],
          knowledge = [\<lparr>Name = ''a.csv'', Size = 7, Text = ''x,y''\<rparr>,
                       \<lparr>Name = ''b.csv'', Size = 1, Text = ''z''\<rparr>]\<rparr>"
        "[\<lparr>Name = ''a.csv'', Size = 3, Text = ''9,9''\<rparr>]"]
  by (simp add: AddFiles_def)

section \<open>Properties of the HTTP handlers\<close>

subsection \<open>Accepted uploads\<close>

lemma postFiles_accepted:
  assumes "Files req \<noteq> []" "length (knowledge mem) + length (Files req) \<le> filesMax"
  shows "\<exists>tot mem'. AddFiles (Files req) mem = Some (tot, mem') \<and>
           postFiles (Inr req) (mem, w) =
             Some (\<lparr>status = 200, body = UploadFilesResponse (length (Files req)) tot\<rparr>, mem', w)"
proof -
  from AddFiles_spec[of "Files req" mem] obtain tot mem' where
    "AddFiles (Files req) mem = Some (tot, mem')" by blast
  with assms show ?thesis by (simp add: postFiles_def ListFiles_def)
qed

text \<open>
  Claim C10. An accepted \<open>POST /api/files\<close> answers 200 with \<open>count\<close> equal to the number
  of entries of the request (each entry counted, whether it replaces a stored file or
  repeats a name of the batch) and \<open>total\<close> equal to the number of files stored after the
  upsert. The total grows by at most \<open>count\<close>, and it can grow by less: re-uploading the
  one stored file twice in a batch gives \<open>count = 2\<close> and leaves \<open>total = 1\<close>.
\<close>

theorem C10_count_is_request_length:
  "(Files req \<noteq> [] \<and> length (knowledge mem) + length (Files req) \<le> filesMax \<longrightarrow>
      (\<exists>tot mem'. AddFiles (Files req) mem = Some (tot, mem') \<and>
         postFiles (Inr req) (mem, w) =
           Some (\<lparr>status = 200, body = UploadFilesResponse (length (Files req)) tot\<rparr>, mem', w) \<and>
         tot = length (knowledge mem') \<and>
         length (knowledge mem) \<le> tot \<and> tot - length (knowledge mem) \<le> length (Files req))) \<and>
   postFiles
     (Inr \<lparr>Files = [\<lparr>Name = ''a.csv'', Size = 3, Text = ''9,9''\<rparr>,
                     \<lparr>Name = ''a.csv'', Size = 1, Text = ''z''\<rparr>]\<rparr>)
     (\<lparr>messages = [], knowledge = [\<lparr>Name = ''a.csv'', Size = 7, Text = ''x,y''\<rparr>]\<rparr>, w) =
     Some (\<lparr>status = 200, body = UploadFilesResponse 2 1\<rparr>,
           \<lparr>messages = [], knowledge = [\<lparr>Name = ''a.csv'', Size = 1, Text = ''z''\<rparr>]\<rparr>, w)"
proof (intro conjI impI)
  assume a: "Files req \<noteq> [] \<and> length (knowledge mem) + length (Files req) \<le> filesMax"
  from postFiles_accepted[of req mem w] a obtain tot mem' where
    r: "AddFiles (Files req) mem = Some (tot, mem')"
       "postFiles (Inr req) (mem, w) =
          Some (\<lparr>status = 200, body = UploadFilesResponse (length (Files req)) tot\<rparr>, mem', w)"
    by blast
  from AddFiles_length_le[OF r(1)] r
  show "\<exists>tot mem'. AddFiles (Files req) mem = Some (tot, mem') \<and>
         postFiles (Inr req) (mem, w) =
           Some (\<lparr>status = 200, body = UploadFilesResponse (length (Files req)) tot\<rparr>, mem', w) \<and>
         tot = length (knowledge mem') \<and>
         length (knowledge mem) \<le> tot \<and> tot - length (knowledge mem) \<le> length (Files req)"
    by auto
next
  show "postFiles
     (Inr \<lparr>Files = [\<lparr>Name = ''a.csv'', Size = 3, Text = ''9,9''\<rparr>,
                     \<lparr>Name = ''a.csv'', Size = 1, Text = ''z''\<rparr>]\<rparr>)
     (\<lparr>messages = [], knowledge = [\<lparr>Name = ''a.csv'', Size = 7, Text = ''x,y''\<rparr>]\<rparr>, w) =
     Some (\<lparr>status = 200, body = UploadFilesResponse 2 1\<rparr>,
           \<lparr>messages = [], knowledge = [\<lparr>Name = ''a.csv'', Size = 1, Text = ''z''\<rparr>]\<rparr>, w)"
    by (simp add: postFiles_def ListFiles_def filesMax_def AddFiles_def)
qed

theorem C10_count_is_request_length_witness:
  "Files \<lparr>Files = [\<lparr>Name = ''a.csv'', Size = 7, Text = ''x,y''\<rparr>,
                    \<lparr>Name = ''b.csv'', Size = 1, Text = ''z''\<rparr>,
                    \<lparr>Name = ''a.csv'', Size = 3, Text = ''9,9''\<rparr>]\<rparr> \<noteq> [] \<and>
   length (knowledge NewMemoryStore) +
     length (Files \<lparr>Files = [\<lparr>Name = ''a.csv'', Size = 7, Text = ''x,y''\<rparr>,
                              \<lparr>Name = ''b.csv'', Size = 1, Text = ''z''\<rparr>,
                              \<lparr>Name = ''a.csv'', Size = 3, Text = ''9,9''\<rparr>]\<rparr>) \<le> filesMax \<and>
   postFiles
     (Inr \<lparr>Files = [\<lparr>Name = ''a.csv'', Size = 7, Text = ''x,y''\<rparr>,
                     \<lparr>Name = ''b.csv'', Size = 1, Text = ''z''\<rparr>,
                     \<lparr>Name = ''a.csv'', Size = 3, Text = ''9,9''\<rparr>]\<rparr>)
     (NewMemoryStore, flakyWorld) =
     Some (\<lparr>status = 200, body = UploadFilesResponse 3 2\<rparr>,
           \<lparr>messages = [],
            knowledge = [\<lparr>Name = ''a.csv'', Size = 3, Text = ''9,9''\<rparr>,
                         \<lparr>Name = ''b.csv'', Size = 1, Text = ''z''\<rparr>]\<rparr>, flakyWorld)"
  using C10_count_is_request_length
    [of "\<lparr>Files = [\<lparr>Name = ''a.csv'', Size = 7, Text = ''x,y''\<rparr>,
                    \<lparr>Name = ''b.csv'', Size = 1, Text = ''z''\<rparr>,
                    \<lparr>Name = ''a.csv'', Size = 3, Text = ''9,9''\<rparr>]\<rparr>"
        NewMemoryStore flakyWorld]
  by (simp add: postFiles_def ListFiles_def filesMax_def AddFiles_def NewMemoryStore_def)

subsection \<open>Rejected requests\<close>

text \<open>
  Claim C3. A request the server rejects for its input changes nothing.
  \<open>POST /api/messages\<close> with a body that does not bind, or with an empty or missing
  \<open>content\<close>, answers 400 with a message; \<open>POST /api/files\<close> answers 400 with a message
  for a body that does not bind and for an empty list of files, and 413 with a message
  and the cap when the stored files and the entries of the request together exceed 50,
  which is the case whenever the upload would take the store beyond 50 files. In each
  case the store (messages and knowledge files) and the world are returned as they came.
\<close>

theorem C3_rejected_requests_change_nothing:
  "postMessages caseTable chat (Inl err) (mem, w) =
     (\<lparr>status = 400, body = ErrorBody ''content requerido''\<rparr>, mem, w) \<and>
   postMessages caseTable chat (Inr \<lparr>reqContent = ''''\<rparr>) (mem, w) =
     (\<lparr>status = 400, body = ErrorBody ''content requerido''\<rparr>, mem, w) \<and>
   postFiles (Inl err) (mem, w) =
     Some (\<lparr>status = 400,
             body = ErrorBody (''JSON inv'' @ [CHR 0xC3, CHR 0xA1] @ ''lido o vac'' @
                               [CHR 0xC3, CHR 0xAD] @ ''o'')\<rparr>, mem, w) \<and>
   postFiles (Inr \<lparr>Files = []\<rparr>) (mem, w) =
     Some (\<lparr>status = 400, body = ErrorBody ''files requerido''\<rparr>, mem, w) \<and>
   (Files req \<noteq> [] \<and> length (knowledge mem) + length (Files req) > filesMax \<longrightarrow>
      postFiles (Inr req) (mem, w) =
        Some (\<lparr>status = 413,
                body = ErrorMaxBody (''se excede el m'' @ [CHR 0xC3, CHR 0xA1] @
                                     ''ximo de archivos'') 50\<rparr>, mem, w)) \<and>
   (Files req \<noteq> [] \<and> AddFiles (Files req) mem = Some (tot, mem') \<and> tot > filesMax \<longrightarrow>
      postFiles (Inr req) (mem, w) =
        Some (\<lparr>status = 413,
                body = ErrorMaxBody (''se excede el m'' @ [CHR 0xC3, CHR 0xA1] @
                                     ''ximo de archivos'') 50\<rparr>, mem, w))"
proof (intro conjI impI)
  assume a: "Files req \<noteq> [] \<and> AddFiles (Files req) mem = Some (tot, mem') \<and> tot > filesMax"
  then have "tot \<le> length (knowledge mem) + length (Files req)"
    using AddFiles_length_le(3) by blast
  with a have "length (knowledge mem) + length (Files req) > filesMax" by simp
  with a show "postFiles (Inr req) (mem, w) =
        Some (\<lparr>status = 413,
                body = ErrorMaxBody (''se excede el m'' @ [CHR 0xC3, CHR 0xA1] @
                                     ''ximo de archivos'') 50\<rparr>, mem, w)"
    by (simp add: postFiles_def ListFiles_def filesMax_def)
qed (simp_all add: postMessages_def postFiles_def ListFiles_def filesMax_def)

theorem C3_rejected_requests_change_nothing_witness:
  "Files \<lparr>Files = manyFiles\<rparr> \<noteq> [] \<and>
   length (knowledge NewMemoryStore) + length (Files \<lparr>Files = manyFiles\<rparr>) > filesMax \<and>
   AddFiles (Files \<lparr>Files = manyFiles\<rparr>) NewMemoryStore =
     Some (51, \<lparr>messages = [], knowledge = manyFiles\<rparr>) \<and>
   51 > filesMax \<and>
   postFiles (Inr \<lparr>Files = manyFiles\<rparr>) (NewMemoryStore, flakyWorld) =
     Some (\<lparr>status = 413,
             body = ErrorMaxBody (''se excede el m'' @ [CHR 0xC3, CHR 0xA1] @
                                  ''ximo de archivos'') 50\<rparr>, NewMemoryStore, flakyWorld)"
proof -
  have h1: "Files \<lparr>Files = manyFiles\<rparr> \<noteq> []" by code_simp
  have h2: "length (knowledge NewMemoryStore) + length (Files \<lparr>Files = manyFiles\<rparr>) > filesMax"
    by code_simp
  have h3: "AddFiles (Files \<lparr>Files = manyFiles\<rparr>) NewMemoryStore =
              Some (51, \<lparr>messages = [], knowledge = manyFiles\<rparr>)"
    by code_simp
  have h4: "51 > filesMax" by (simp add: filesMax_def)
  from C3_rejected_requests_change_nothing
    [of "\<lambda>r. r" MockProvider "''unexpected EOF''" NewMemoryStore flakyWorld
        "\<lparr>Files = manyFiles\<rparr>" 51 "\<lparr>messages = [], knowledge = manyFiles\<rparr>"]
    h1 h2
  have "postFiles (Inr \<lparr>Files = manyFiles\<rparr>) (NewMemoryStore, flakyWorld) =
     Some (\<lparr>status = 413,
             body = ErrorMaxBody (''se excede el m'' @ [CHR 0xC3, CHR 0xA1] @
                                  ''ximo de archivos'') 50\<rparr>, NewMemoryStore, flakyWorld)"
    by blast
  with h1 h2 h3 h4 show ?thesis by blast
qed

subsection \<open>Provider failures\<close>

lemma OpenAIReply_eq:
  "OpenAIReply p history userInput w =
     (readResult (network w (length (sent w)) (replyRequest p history userInput)),
      w\<lparr>sent := sent w @ [replyRequest p history userInput]\<rparr>)"
  by (simp add: OpenAIReply_def clientDo_def)







section \<open>Properties of the prompt builder\<close>

subsection \<open>Truncation of the file context\<close>

lemma trimInvalid_valid: "ValidString (trimInvalid str)"
proof (induction str rule: trimInvalid.induct)
  case (1 str)
  show ?case
  proof (cases "\<not> ValidString str \<and> length str > 0")
    case True
    with "1.IH" show ?thesis by (simp add: trimInvalid.simps[of str])
  next
    case False
    then have "trimInvalid str = str" by (auto simp: trimInvalid.simps[of str])
    moreover from False have "ValidString str" by (cases str) auto
    ultimately show ?thesis by simp
  qed
qed

lemma trimInvalid_prefix: "prefix (trimInvalid str) str"
proof (induction str rule: trimInvalid.induct)
  case (1 str)
  show ?case
  proof (cases "\<not> ValidString str \<and> length str > 0")
    case True
    with "1.IH" have "prefix (trimInvalid (take (length str - 1) str)) (take (length str - 1) str)"
      by simp
    also have "prefix (take (length str - 1) str) str" by (rule take_is_prefix)
    finally show ?thesis using True by (simp add: trimInvalid.simps[of str])
  next
    case False
    then show ?thesis by (auto simp: trimInvalid.simps[of str])
  qed
qed

lemma trimInvalid_id: "ValidString str \<Longrightarrow> trimInvalid str = str"
  by (simp add: trimInvalid.simps[of str])

text \<open>The trimming stops at the longest prefix that is valid.\<close>

lemma trimInvalid_longest:
  "length (trimInvalid str) < n \<Longrightarrow> n \<le> length str \<Longrightarrow> \<not> ValidString (take n str)"
proof (induction str rule: trimInvalid.induct)
  case (1 str)
  show ?case
  proof (cases "\<not> ValidString str \<and> length str > 0")
    case True
    then have eq: "trimInvalid str = trimInvalid (take (length str - 1) str)"
      by (simp add: trimInvalid.simps[of str])
    show ?thesis
    proof (cases "n = length str")
      case True
      with \<open>\<not> ValidString str \<and> length str > 0\<close> show ?thesis by simp
    next
      case False
      with "1.prems"(2) have le: "n \<le> length (take (length str - 1) str)" by simp
      from "1.prems"(1) eq have "length (trimInvalid (take (length str - 1) str)) < n" by simp
      from "1.IH"[OF True this le] le show ?thesis by (simp add: min_absorb2)
    qed
  next
    case False
    then have "trimInvalid str = str" by (auto simp: trimInvalid.simps[of str])
    with "1.prems" show ?thesis by simp
  qed
qed

lemma excerpt_valid: "ValidString (excerpt tot f)"
  by (simp add: excerpt_def Let_def trimInvalid_valid)

lemma excerpt_prefix: "prefix (excerpt tot f) (Text f)"
proof -
  have "prefix (take n (Text f)) (Text f)" for n by (rule take_is_prefix)
  moreover have "prefix (take n (take k (Text f))) (Text f)" for n k
    using prefix_order.trans[OF take_is_prefix take_is_prefix] .
  ultimately show ?thesis
    unfolding excerpt_def Let_def
    by (auto intro: prefix_order.trans[OF trimInvalid_prefix])
qed

lemma excerpt_length:
  "length (excerpt tot f) \<le> maxPerFileBytes"
  "tot \<le> maxTotalBytes \<Longrightarrow> tot + length (excerpt tot f) \<le> maxTotalBytes"
proof -
  define a where
    "a = (if length (Text f) > maxPerFileBytes then take maxPerFileBytes (Text f) else Text f)"
  define b where
    "b = (if tot + length a > maxTotalBytes then take (maxTotalBytes - tot) a else a)"
  have e: "excerpt tot f = trimInvalid b" by (simp add: excerpt_def Let_def a_def b_def)
  have t: "length (trimInvalid b) \<le> length b" using prefix_length_le[OF trimInvalid_prefix] .
  have la: "length a \<le> maxPerFileBytes" by (simp add: a_def)
  have lb: "length b \<le> length a" by (auto simp: b_def min_def)
  from e t la lb show "length (excerpt tot f) \<le> maxPerFileBytes" by simp
  assume "tot \<le> maxTotalBytes"
  then have "tot + length b \<le> maxTotalBytes" by (auto simp: b_def min_def)
  with e t show "tot + length (excerpt tot f) \<le> maxTotalBytes" by simp
qed

lemma excerpts_length: "length (excerpts tot fs) = length fs"
  by (induction fs arbitrary: tot) auto

lemma excerpts_each:
  "x \<in> set (excerpts tot fs) \<Longrightarrow> ValidString x \<and> length x \<le> maxPerFileBytes"
proof (induction fs arbitrary: tot)
  case Nil
  then show ?case by simp
next
  case (Cons f fs)
  then show ?case
    by (auto simp: excerpt_valid excerpt_length(1) split: if_splits)
qed

lemma excerpts_prefix:
  "i < length fs \<Longrightarrow> prefix (excerpts tot fs ! i) (Text (fs ! i))"
proof (induction fs arbitrary: tot i)
  case Nil
  then show ?case by simp
next
  case (Cons f fs)
  then show ?case by (cases i) (auto simp: excerpt_prefix)
qed

lemma excerpts_budget:
  "tot \<le> maxTotalBytes \<Longrightarrow> tot + sum_list (map length (excerpts tot fs)) \<le> maxTotalBytes"
proof (induction fs arbitrary: tot)
  case Nil
  then show ?case by simp
next
  case (Cons f fs)
  show ?case
  proof (cases "tot \<ge> maxTotalBytes")
    case True
    with Cons.IH[OF Cons.prems] show ?thesis by simp
  next
    case False
    from excerpt_length(2)[OF Cons.prems, of f]
    have "tot + length (excerpt tot f) \<le> maxTotalBytes" .
    from Cons.IH[OF this] False show ?thesis by (simp add: add.assoc)
  qed
qed

text \<open>The loop writes one entry per file: its summary line and, if any, its excerpt.\<close>

lemma filesLoop_entries:
  "filesLoop fs (b, tot) =
     (b @ concat (map fileEntry (zip fs (excerpts tot fs))),
      tot + sum_list (map length (excerpts tot fs)))"
proof (induction fs arbitrary: b tot)
  case Nil
  show ?case by simp
next
  case (Cons f fs)
  show ?case
  proof (cases "tot \<ge> maxTotalBytes")
    case True
    then show ?thesis by (simp add: Cons.IH Let_def fileEntry_def)
  next
    case False
    then show ?thesis
      by (cases "excerpt tot f = []") (simp_all add: Cons.IH Let_def fileEntry_def)
  qed
qed

lemma buildFilesContext_entries:
  "buildFilesContext mem =
     (if ListFiles mem = [] then []
      else contextHeader @
           concat (map fileEntry (zip (ListFiles mem) (excerpts 0 (ListFiles mem)))))"
  by (simp add: buildFilesContext_def Let_def filesLoop_entries)

lemma fileEntry_last: "fileEntry p \<noteq> [] \<and> last (fileEntry p) = CHR ''\<newline>''"
  by (cases p) (simp add: fileEntry_def fileLine_def)

lemma concat_entries_last:
  "ps \<noteq> [] \<Longrightarrow> last (b @ concat (map fileEntry ps)) = CHR ''\<newline>''"
proof (induction ps arbitrary: b rule: rev_induct)
  case Nil
  then show ?case by simp
next
  case (snoc p ps)
  from fileEntry_last[of p] show ?case by simp
qed

lemma buildFilesContext_last:
  assumes "buildFilesContext mem \<noteq> []"
  shows "last (buildFilesContext mem) = CHR ''\<newline>''"
proof -
  from assms have ne: "ListFiles mem \<noteq> []" by (auto simp: buildFilesContext_entries)
  then have "zip (ListFiles mem) (excerpts 0 (ListFiles mem)) \<noteq> []"
    by (cases "ListFiles mem") auto
  from concat_entries_last[OF this] ne show ?thesis by (simp add: buildFilesContext_entries)
qed

lemma excerpt_whole:
  assumes "ValidString (Text f)" "length (Text f) \<le> maxPerFileBytes"
    "tot + length (Text f) \<le> maxTotalBytes"
  shows "excerpt tot f = Text f"
  using assms by (simp add: excerpt_def Let_def trimInvalid_id)

lemma ValidString_ascii: "\<forall>c \<in> set s. (of_char c :: nat) < 128 \<Longrightarrow> ValidString s"
  by (induction s) (simp_all add: RuneSelf_def)

lemma concat_entries_ge:
  "length xs = length fs \<Longrightarrow>
     sum_list (map length xs) \<le> length (concat (map fileEntry (zip fs xs)))"
proof (induction xs fs rule: list_induct2)
  case Nil
  show ?case by simp
next
  case (Cons x xs f fs)
  have "length x \<le> length (fileEntry (f, x))" by (simp add: fileEntry_def)
  with Cons.IH show ?case by simp
qed

text \<open>
  The context string is longer than its excerpts: the header and the summary lines come
  on top.
\<close>

lemma buildFilesContext_longer:
  assumes "ListFiles mem \<noteq> []"
  shows "length contextHeader + sum_list (map length (excerpts 0 (ListFiles mem)))
           \<le> length (buildFilesContext mem)"
  using assms concat_entries_ge[OF excerpts_length, of 0 "ListFiles mem"]
  by (simp add: buildFilesContext_entries)

lemma bigFile_excerpt:
  assumes "tot + maxPerFileBytes \<le> maxTotalBytes"
  shows "excerpt tot (bigFile name) = replicate maxPerFileBytes (CHR ''a'')"
proof -
  have v: "ValidString (Text (bigFile name))"
    by (rule ValidString_ascii) (simp add: bigFile_def)
  have l: "length (Text (bigFile name)) = maxPerFileBytes" by (simp add: bigFile_def)
  from excerpt_whole[OF v] l assms have "excerpt tot (bigFile name) = Text (bigFile name)"
    by simp
  then show ?thesis by (simp add: bigFile_def)
qed

lemma fullStore_excerpts:
  "sum_list (map length (excerpts 0 (ListFiles fullStore))) = maxTotalBytes"
proof -
  define m where "m = maxPerFileBytes"
  have t: "maxTotalBytes = 4 * m" and pos: "0 < m"
    by (simp_all add: m_def maxTotalBytes_def maxPerFileBytes_def)
  have e: "excerpt tot (bigFile name) = replicate m (CHR ''a'')" if "tot + m \<le> 4 * m" for tot name
    using bigFile_excerpt[of tot name] that by (simp add: t m_def)
  have e0: "excerpt 0 (bigFile name) = replicate m (CHR ''a'')" for name
    using e[of 0 name] by simp
  have e1: "excerpt m (bigFile name) = replicate m (CHR ''a'')" for name
    using e[of m name] by simp
  have e2: "excerpt (m + m) (bigFile name) = replicate m (CHR ''a'')" for name
    using e[of "m + m" name] by simp
  have e3: "excerpt (m + m + m) (bigFile name) = replicate m (CHR ''a'')" for name
    using e[of "m + m + m" name] by simp
  have "excerpts 0 (ListFiles fullStore) =
          [replicate m (CHR ''a''), replicate m (CHR ''a''),
           replicate m (CHR ''a''), replicate m (CHR ''a'')]"
    using pos by (simp add: ListFiles_def fullStore_def t e0 e1 e2 e3)
  then show ?thesis by (simp add: t)
qed

text \<open>
  Claim C1, as stated, at the store \<open>fullStore\<close>: its four files of 20 KB fill the budget
  with their excerpts, and the context string, which also holds the header and the four
  summary lines, is longer than \<open>80 * 1024\<close> bytes.
\<close>

theorem C1_context_string_exceeds_budget:
  "\<not> length (buildFilesContext fullStore) \<le> 80 * 1024"
proof -
  have ne: "ListFiles fullStore \<noteq> []" by (simp add: ListFiles_def fullStore_def)
  have "length contextHeader + 81920 \<le> length (buildFilesContext fullStore)"
    using buildFilesContext_longer[OF ne] fullStore_excerpts by (simp add: maxTotalBytes_def)
  moreover have "0 < length contextHeader" by (simp add: contextHeader_def)
  ultimately show ?thesis by linarith
qed

text \<open>
  Claim C1, amended. The context string is the header followed by one entry per file:
  the summary line and, when there is one, the excerpt. Every excerpt is valid UTF-8, is
  a prefix of the file's text (the cut only moves to the left) and has at most
  \<open>20 * 1024\<close> bytes; the excerpts together have at most \<open>80 * 1024\<close> bytes (the header
  and the summary lines are not counted in that budget). A non-empty context string ends
  in a newline, so it does not end inside a character.
\<close>

theorem C1_excerpts_valid_and_within_budget:
  "buildFilesContext mem =
     (if ListFiles mem = [] then []
      else contextHeader @
           concat (map fileEntry (zip (ListFiles mem) (excerpts 0 (ListFiles mem))))) \<and>
   length (excerpts 0 (ListFiles mem)) = length (ListFiles mem) \<and>
   (\<forall>x \<in> set (excerpts 0 (ListFiles mem)). ValidString x \<and> length x \<le> 20 * 1024) \<and>
   (\<forall>i < length (ListFiles mem).
      prefix (excerpts 0 (ListFiles mem) ! i) (Text (ListFiles mem ! i))) \<and>
   sum_list (map length (excerpts 0 (ListFiles mem))) \<le> 80 * 1024 \<and>
   (buildFilesContext mem \<noteq> [] \<longrightarrow> last (buildFilesContext mem) = CHR ''\<newline>'')"
proof (intro conjI ballI allI impI)
  show "buildFilesContext mem =
     (if ListFiles mem = [] then []
      else contextHeader @
           concat (map fileEntry (zip (ListFiles mem) (excerpts 0 (ListFiles mem)))))"
    by (rule buildFilesContext_entries)
  show "length (excerpts 0 (ListFiles mem)) = length (ListFiles mem)" by (rule excerpts_length)
  show "sum_list (map length (excerpts 0 (ListFiles mem))) \<le> 80 * 1024"
    using excerpts_budget[of 0 "ListFiles mem"] by (simp add: maxTotalBytes_def)
next
  fix x assume "x \<in> set (excerpts 0 (ListFiles mem))"
  from excerpts_each[OF this] show "ValidString x" "length x \<le> 20 * 1024"
    by (simp_all add: maxPerFileBytes_def)
next
  fix i assume "i < length (ListFiles mem)"
  then show "prefix (excerpts 0 (ListFiles mem) ! i) (Text (ListFiles mem ! i))"
    by (rule excerpts_prefix)
next
  assume "buildFilesContext mem \<noteq> []"
  then show "last (buildFilesContext mem) = CHR ''\<newline>''" by (rule buildFilesContext_last)
qed

theorem C1_excerpts_valid_and_within_budget_witness:
  "excerpts 0 (ListFiles \<lparr>messages = [], knowledge = [cutFile]\<rparr>) = [''x,y''] \<and>
   ''x,y'' \<in> set (excerpts 0 (ListFiles \<lparr>messages = [], knowledge = [cutFile]\<rparr>)) \<and>
   ValidString ''x,y'' \<and> \<not> ValidString (Text cutFile) \<and>
   (0::nat) < length (ListFiles \<lparr>messages = [], knowledge = [cutFile]\<rparr>) \<and>
   prefix ''x,y'' (Text cutFile) \<and>
   buildFilesContext \<lparr>messages = [], knowledge = [cutFile]\<rparr> =
     contextHeader @ ''- a.csv (4 bytes)\<newline>'' @
     ''Contenido (parcial):\<newline>\<newline>x,y\<newline>\<newline>'' \<and>
   last (buildFilesContext \<lparr>messages = [], knowledge = [cutFile]\<rparr>) = CHR ''\<newline>''"
proof -
  let ?mem = "\<lparr>messages = [], knowledge = [cutFile]\<rparr>"
  have tr: "trimInvalid [CHR ''x'', CHR '','', CHR ''y'', CHR 0xC3] = ''x,y''"
    by (simp add: trimInvalid.simps RuneSelf_def firstByte_def byteAt_def locb_def hicb_def)
  have ex: "excerpts 0 (ListFiles ?mem) = [''x,y'']"
    by (simp add: ListFiles_def cutFile_def excerpt_def Let_def maxPerFileBytes_def
        maxTotalBytes_def tr)
  have inv: "\<not> ValidString (Text cutFile)" by code_simp
  have ctx: "buildFilesContext ?mem =
     contextHeader @ ''- a.csv (4 bytes)\<newline>'' @
     ''Contenido (parcial):\<newline>\<newline>x,y\<newline>\<newline>''"
    using ex
    by (simp add: buildFilesContext_entries ListFiles_def fileEntry_def fileLine_def
        formatInt_def natDigits.simps cutFile_def)
  then have ne: "buildFilesContext ?mem \<noteq> []" by simp
  have m: "''x,y'' \<in> set (excerpts 0 (ListFiles ?mem))" by (simp add: ex)
  have i0: "(0::nat) < length (ListFiles ?mem)" by (simp add: ListFiles_def)
  from C1_excerpts_valid_and_within_budget[of ?mem]
  have v: "\<forall>x \<in> set (excerpts 0 (ListFiles ?mem)). ValidString x \<and> length x \<le> 20 * 1024"
    and p: "\<forall>i < length (ListFiles ?mem).
              prefix (excerpts 0 (ListFiles ?mem) ! i) (Text (ListFiles ?mem ! i))"
    and l: "buildFilesContext ?mem \<noteq> [] \<longrightarrow> last (buildFilesContext ?mem) = CHR ''\<newline>''"
    by blast+
  from v m have vx: "ValidString ''x,y''" by blast
  from p i0 have "prefix (excerpts 0 (ListFiles ?mem) ! 0) (Text (ListFiles ?mem ! 0))" by blast
  then have px: "prefix ''x,y'' (Text cutFile)" by (simp add: ex) (simp add: ListFiles_def)
  from l ne have lst: "last (buildFilesContext ?mem) = CHR ''\<newline>''" by blast
  show ?thesis using ex m vx inv i0 px ctx lst by blast
qed

subsection \<open>Substrings and replacement\<close>

lemma Contains_iff: "Contains s k \<longleftrightarrow> (\<exists>a b. s = a @ k @ b)"
proof (induction s)
  case Nil
  show ?case by auto
next
  case (Cons c cs)
  show ?case
  proof
    assume "Contains (c # cs) k"
    then consider "prefix k (c # cs)" | "Contains cs k" by auto
    then show "\<exists>a b. c # cs = a @ k @ b"
    proof cases
      case 1
      then obtain b where "c # cs = k @ b" by (auto simp: prefix_def)
      then have "c # cs = [] @ k @ b" by simp
      then show ?thesis by blast
    next
      case 2
      with Cons.IH obtain a b where "cs = a @ k @ b" by blast
      then have "c # cs = (c # a) @ k @ b" by simp
      then show ?thesis by blast
    qed
  next
    assume "\<exists>a b. c # cs = a @ k @ b"
    then obtain a b where ab: "c # cs = a @ k @ b" by blast
    show "Contains (c # cs) k"
    proof (cases a)
      case Nil
      with ab have "prefix k (c # cs)" by (simp add: prefix_def)
      then show ?thesis by simp
    next
      case (Cons x a')
      with ab have "cs = a' @ k @ b" by simp
      with Cons.IH have "Contains cs k" by blast
      then show ?thesis by simp
    qed
  qed
qed

lemma prefix_hd: "prefix old (x # xs) \<Longrightarrow> old \<noteq> [] \<Longrightarrow> hd old = x"
  by (cases old) auto

text \<open>An occurrence of \<open>old\<close> cannot start where its first byte does not stand.\<close>

lemma Replace1_skip:
  "old \<noteq> [] \<Longrightarrow> hd old \<notin> set a \<Longrightarrow> Replace1 (a @ r) old new = a @ Replace1 r old new"
proof (induction a)
  case Nil
  show ?case by simp
next
  case (Cons x a)
  from Cons.prems have "\<not> prefix old (x # a @ r)" using prefix_hd by fastforce
  with Cons show ?case by simp
qed

lemma Replace1_here: "old \<noteq> [] \<Longrightarrow> Replace1 (old @ r) old new = new @ r"
  by (cases old) auto

text \<open>
  Nor can it start inside a string that does not contain \<open>old\<close> and is followed by a byte
  that \<open>old\<close> does not have.
\<close>

lemma Replace1_skip_absent:
  "\<not> Contains a old \<Longrightarrow> c \<notin> set old \<Longrightarrow>
     Replace1 (a @ c # r) old new = a @ Replace1 (c # r) old new"
proof (induction a)
  case Nil
  show ?case by simp
next
  case (Cons x a)
  from Cons.prems(1) have np: "\<not> prefix old (x # a)" and nc: "\<not> Contains a old" by auto
  have "\<not> prefix old ((x # a) @ c # r)"
  proof
    assume "prefix old ((x # a) @ c # r)"
    then have "prefix old (x # a) \<or> (\<exists>us. old = (x # a) @ us \<and> prefix us (c # r))"
      by (simp only: prefix_append)
    with np obtain us where us: "old = (x # a) @ us" "prefix us (c # r)" by blast
    from us(1) np have "us \<noteq> []" by auto
    with us(2) have "hd us = c" by (rule prefix_hd)
    with \<open>us \<noteq> []\<close> us(1) have "c \<in> set old" by (cases us) auto
    with Cons.prems(2) show False ..
  qed
  with Cons.IH[OF nc Cons.prems(2)] show ?case by simp
qed

text \<open>Whatever is replaced, what stood after the last occurrence stays at the end.\<close>

lemma Replace1_suffix: "suffix post (Replace1 (a @ old @ post) old new)"
proof (induction a)
  case Nil
  show ?case
  proof (cases old)
    case Nil
    then show ?thesis by (cases post) (auto simp: suffix_def)
  next
    case (Cons x xs)
    then show ?thesis by (simp add: suffix_def)
  qed
next
  case (Cons x a)
  show ?case
  proof (cases "prefix old (x # a @ old @ post)")
    case True
    have d: "drop n (u @ post) = drop n u @ post" if "n \<le> length u" for n and u :: string
      using that by simp
    have "drop (length old) (((x # a) @ old) @ post) = drop (length old) ((x # a) @ old) @ post"
      by (rule d) simp
    then have "suffix post (new @ drop (length old) ((x # a) @ old @ post))"
      by (simp add: suffix_def)
    with True show ?thesis by simp
  next
    case False
    with Cons.IH show ?thesis by (simp add: suffix_Cons)
  qed
qed

lemma suffix_Contains: "suffix post s \<Longrightarrow> Contains post k \<Longrightarrow> Contains s k"
  by (auto simp: Contains_iff suffix_def) (metis append.assoc)

subsection \<open>The analyst prompt\<close>

lemma template_braces:
  "CHR ''{'' \<notin> set templateHead" "CHR ''{'' \<notin> set templateMid"
  "hd placeholderData = CHR ''{''" "hd placeholderQuery = CHR ''{''"
  "placeholderData \<noteq> []" "placeholderQuery \<noteq> []"
  "CHR ''\<newline>'' \<notin> set placeholderQuery"
  by (simp_all add: templateHead_def templateMid_def placeholderData_def placeholderQuery_def)

lemma first_replace:
  "Replace1 analystTemplate placeholderData csvContext =
     templateHead @ csvContext @ templateMid @ placeholderQuery @ templateTail"
proof -
  have "Replace1 (templateHead @ placeholderData @ templateMid @ placeholderQuery @ templateTail)
          placeholderData csvContext =
        templateHead @ Replace1 (placeholderData @ templateMid @ placeholderQuery @ templateTail)
          placeholderData csvContext"
    by (rule Replace1_skip) (simp_all add: template_braces)
  then show ?thesis by (simp add: analystTemplate_def Replace1_here template_braces)
qed

text \<open>
  The prompt always ends with the part of the template after the query placeholder,
  which holds the output format.
\<close>

lemma buildAnalystPrompt_tail: "suffix templateTail (buildAnalystPrompt userQuery csvContext)"
proof -
  have "suffix templateTail
          (Replace1 ((templateHead @ csvContext @ templateMid) @ placeholderQuery @ templateTail)
             placeholderQuery userQuery)"
    by (rule Replace1_suffix)
  then show ?thesis by (simp add: buildAnalystPrompt_def first_replace)
qed

lemma Contains_append2: "Contains b k \<Longrightarrow> Contains (a @ b) k"
  by (auto simp: Contains_iff) (metis append.assoc)

lemma Contains_concat: "l \<in> set ls \<Longrightarrow> prefix k l \<Longrightarrow> Contains (concat ls) k"
proof -
  assume "l \<in> set ls" "prefix k l"
  then obtain xs ys r where "ls = xs @ l # ys" "l = k @ r"
    by (auto simp: in_set_conv_decomp prefix_def)
  then have "concat ls = concat xs @ k @ (r @ concat ys)" by simp
  then show ?thesis unfolding Contains_iff by blast
qed

text \<open>Each section marker opens a line of the output format.\<close>

lemma templateFormat_markers: "\<forall>m \<in> set sectionMarkers. Contains templateFormat m"
proof -
  have "\<forall>m \<in> set sectionMarkers. \<exists>l \<in> set formatLines. prefix m l"
    by (simp add: sectionMarkers_def formatLines_def)
  then show ?thesis unfolding templateFormat_def using Contains_concat by blast
qed

lemma templateTail_markers: "\<forall>m \<in> set sectionMarkers. Contains templateTail m"
  using templateFormat_markers by (simp add: templateTail_def Contains_append2)

lemma buildAnalystPrompt_markers:
  "m \<in> set sectionMarkers \<Longrightarrow> Contains (buildAnalystPrompt userQuery csvContext) m"
  using suffix_Contains[OF buildAnalystPrompt_tail] templateTail_markers by blast

text \<open>
  When the CSV context does not contain the text of the query placeholder, both
  placeholders of the template are filled.
\<close>

lemma buildAnalystPrompt_filled:
  assumes "\<not> Contains csvContext placeholderQuery"
  shows "buildAnalystPrompt userQuery csvContext =
           templateHead @ csvContext @ templateMid @ userQuery @ templateTail"
proof -
  let ?rest = "placeholderQuery @ templateTail"
  have m: "templateMid = CHR ''\<newline>'' # ''User Query: ''" by (simp add: templateMid_def)
  have "Replace1 (templateHead @ csvContext @ templateMid @ ?rest) placeholderQuery userQuery =
        templateHead @ Replace1 (csvContext @ templateMid @ ?rest) placeholderQuery userQuery"
    by (rule Replace1_skip) (simp_all add: template_braces)
  also have "Replace1 (csvContext @ templateMid @ ?rest) placeholderQuery userQuery =
             csvContext @ Replace1 (templateMid @ ?rest) placeholderQuery userQuery"
    using Replace1_skip_absent[OF assms template_braces(7), of "''User Query: '' @ ?rest" userQuery]
    by (simp add: m)
  also have "Replace1 (templateMid @ ?rest) placeholderQuery userQuery =
             templateMid @ Replace1 ?rest placeholderQuery userQuery"
    by (rule Replace1_skip) (simp_all add: template_braces)
  also have "Replace1 ?rest placeholderQuery userQuery = userQuery @ templateTail"
    by (rule Replace1_here) (simp add: template_braces)
  finally show ?thesis by (simp add: buildAnalystPrompt_def first_replace)
qed

text \<open>
  When the CSV context contains that text, the query goes to its first occurrence there
  and the placeholder of the template stays.
\<close>

lemma buildAnalystPrompt_captured:
  assumes "CHR ''{'' \<notin> set before"
  shows "buildAnalystPrompt userQuery (before @ placeholderQuery @ after) =
           templateHead @ (before @ userQuery @ after) @
           templateMid @ placeholderQuery @ templateTail"
proof -
  let ?rest = "after @ templateMid @ placeholderQuery @ templateTail"
  have "Replace1 ((templateHead @ before) @ placeholderQuery @ ?rest) placeholderQuery userQuery =
        (templateHead @ before) @ Replace1 (placeholderQuery @ ?rest) placeholderQuery userQuery"
    by (rule Replace1_skip) (simp_all add: template_braces assms)
  also have "Replace1 (placeholderQuery @ ?rest) placeholderQuery userQuery = userQuery @ ?rest"
    by (rule Replace1_here) (simp add: template_braces)
  finally show ?thesis by (simp add: buildAnalystPrompt_def first_replace)
qed

subsection \<open>Detection of an analyst query\<close>

lemma anyKeyword_iff: "anyKeyword ql kws \<longleftrightarrow> (\<exists>kw \<in> set kws. Contains ql kw)"
  by (induction kws) auto

lemma isAnalystQuery_iff:
  "isAnalystQuery caseTable q \<longleftrightarrow>
     (\<exists>kw \<in> set analystKeywords. Contains (ToLower caseTable q) kw)"
  by (simp add: isAnalystQuery_def anyKeyword_iff)

text \<open>
  Decoding never takes an ASCII byte into a longer sequence: the bytes after the first
  one of a rune are all at or above \<open>0x80\<close>.
\<close>

lemma firstByte_Some:
  "firstByte b = Some (sz, lo, hi) \<Longrightarrow> (sz = 2 \<or> sz = 3 \<or> sz = 4) \<and> 128 \<le> lo"
  by (auto simp: firstByte_def locb_def split: if_splits)

lemma decode_width:
  assumes "DecodeRuneInString (x # s) = (r, w)"
  shows "1 \<le> w \<and> (\<forall>i < w - 1. i < length s \<and> 128 \<le> byteAt s i)"
proof (cases "(of_char x :: nat) < RuneSelf")
  case True
  with assms show ?thesis by auto
next
  case False
  note hi = this
  show ?thesis
  proof (cases "firstByte (of_char x)")
    case None
    with assms hi show ?thesis by auto
  next
    case (Some t)
    obtain sz lo hi' where t: "t = (sz, lo, hi')" by (cases t)
    from firstByte_Some Some t have sz: "sz = 2 \<or> sz = 3 \<or> sz = 4" and lo: "128 \<le> lo"
      by blast+
    from assms hi Some t sz lo
    consider "w = 1"
      | "w = 2" "1 \<le> length s" "128 \<le> byteAt s 0"
      | "w = 3" "2 \<le> length s" "128 \<le> byteAt s 0" "128 \<le> byteAt s 1"
      | "w = 4" "3 \<le> length s" "128 \<le> byteAt s 0" "128 \<le> byteAt s 1" "128 \<le> byteAt s 2"
      by (auto simp: Let_def locb_def split: if_splits)
    then show ?thesis
    proof cases
      case 1
      then show ?thesis by simp
    next
      case 2
      then show ?thesis by auto
    next
      case 3
      have "i = 0 \<or> i = 1" if "i < 2" for i :: nat using that by auto
      with 3 show ?thesis by auto
    next
      case 4
      have "i = 0 \<or> i = 1 \<or> i = 2" if "i < 3" for i :: nat using that by auto
      with 4 show ?thesis by auto
    qed
  qed
qed

lemma decode_ascii:
  "(of_char c :: nat) < 128 \<Longrightarrow> DecodeRuneInString (c # cs) = (of_char c, 1)"
  by (simp add: RuneSelf_def)

lemma lower_ascii:
  assumes "(of_char c :: nat) < 128"
  shows "EncodeRune (unicodeToLower caseTable (of_char c)) = [lowerByte c]"
proof (cases "0x41 \<le> (of_char c :: nat) \<and> (of_char c :: nat) \<le> 0x5A")
  case True
  then show ?thesis by (simp add: unicodeToLower_def EncodeRune_def lowerByte_def)
next
  case False
  with assms show ?thesis by (auto simp: unicodeToLower_def EncodeRune_def lowerByte_def)
qed

lemma mapRunes_ascii_prefix:
  "\<forall>c \<in> set k. (of_char c :: nat) < 128 \<Longrightarrow>
     mapRunes (unicodeToLower caseTable) (k @ b) =
       map lowerByte k @ mapRunes (unicodeToLower caseTable) b"
  by (induction k) (simp_all add: decode_ascii lower_ascii del: DecodeRuneInString.simps)

lemma mapRunes_keeps:
  assumes "\<forall>c \<in> set k. (of_char c :: nat) < 128"
  shows "\<exists>a' b'. mapRunes (unicodeToLower caseTable) (a @ k @ b) = a' @ map lowerByte k @ b'"
proof (induction a rule: length_induct)
  case (1 a)
  show ?case
  proof (cases a)
    case Nil
    with mapRunes_ascii_prefix[OF assms, of caseTable b] show ?thesis by (metis append_Nil)
  next
    case (Cons x a')
    show ?thesis
    proof (cases k)
      case Nil
      then show ?thesis by (metis append_Nil2 list.simps(8))
    next
      case kc: (Cons y k')
      obtain r w where d: "DecodeRuneInString (x # a' @ k @ b) = (r, w)"
        by (cases "DecodeRuneInString (x # a' @ k @ b)")
      from decode_width[OF d] have w: "1 \<le> w"
        and hi: "\<forall>i < w - 1. i < length (a' @ k @ b) \<and> 128 \<le> byteAt (a' @ k @ b) i"
        by blast+
      have le: "w - 1 \<le> length a'"
      proof (rule ccontr)
        assume "\<not> w - 1 \<le> length a'"
        then have "length a' < w - 1" by simp
        with hi have "128 \<le> byteAt (a' @ k @ b) (length a')" by blast
        moreover have "byteAt (a' @ k @ b) (length a') = of_char y"
          by (simp add: byteAt_def kc)
        moreover from assms kc have "(of_char y :: nat) < 128" by simp
        ultimately show False by simp
      qed
      then have dr: "drop (w - 1) (a' @ k @ b) = drop (w - 1) a' @ k @ b" by simp
      have "length (drop (w - 1) a') < length a" using Cons by simp
      with "1.IH" obtain a2 b2 where
        "mapRunes (unicodeToLower caseTable) (drop (w - 1) a' @ k @ b) =
           a2 @ map lowerByte k @ b2"
        by blast
      with d dr Cons
      have "mapRunes (unicodeToLower caseTable) (a @ k @ b) =
              (EncodeRune (unicodeToLower caseTable r) @ a2) @ map lowerByte k @ b2"
        by (simp del: DecodeRuneInString.simps)
      then show ?thesis by blast
    qed
  qed
qed

text \<open>
  Lower-casing keeps an ASCII substring, lower-cased: a keyword of ASCII letters is found
  in whatever case the query has it.
\<close>

lemma ToLower_keeps:
  assumes "Contains q k" "\<forall>c \<in> set k. (of_char c :: nat) < 128"
  shows "Contains (ToLower caseTable q) (map lowerByte k)"
proof -
  from assms(1) obtain a b where q: "q = a @ k @ b" unfolding Contains_iff by blast
  show ?thesis
  proof (cases "list_all (\<lambda>c. (of_char c :: nat) < RuneSelf) q")
    case True
    then have "ToLower caseTable q = map lowerByte q" by (simp add: ToLower_def)
    then have "ToLower caseTable q = map lowerByte a @ map lowerByte k @ map lowerByte b"
      by (simp add: q)
    then show ?thesis unfolding Contains_iff by blast
  next
    case False
    then have "ToLower caseTable q = mapRunes (unicodeToLower caseTable) q"
      by (simp add: ToLower_def)
    then have "ToLower caseTable q = mapRunes (unicodeToLower caseTable) (a @ k @ b)"
      by (simp add: q)
    with mapRunes_keeps[OF assms(2), of caseTable a b] show ?thesis
      unfolding Contains_iff by auto
  qed
qed

lemma isAnalystQuery_ascii:
  assumes "Contains q k" "\<forall>c \<in> set k. (of_char c :: nat) < 128"
    "map lowerByte k \<in> set analystKeywords"
  shows "isAnalystQuery caseTable q"
  using ToLower_keeps[OF assms(1,2)] assms(3) unfolding isAnalystQuery_iff by blast

lemma isAnalystQuery_resumen: "Contains q ''resumen'' \<Longrightarrow> isAnalystQuery caseTable q"
  by (rule isAnalystQuery_ascii[where k = "''resumen''"])
     (simp_all add: lowerByte_def analystKeywords_def)

lemma buildPrompt_cases:
  "buildPrompt caseTable q mem =
     (if \<exists>kw \<in> set analystKeywords. Contains (ToLower caseTable q) kw
      then buildAnalystPrompt q (buildFilesContext mem) else q)"
  by (simp add: buildPrompt_def useAnalyst_def isAnalystQuery_iff Let_def)

subsection \<open>The prompt of an analyst query\<close>

lemma buildFilesContext_Append: "buildFilesContext (Append msg mem) = buildFilesContext mem"
  by (simp add: buildFilesContext_def ListFiles_def Append_def)

lemma placeholderQuery_ascii:
  "ValidString placeholderQuery" "length placeholderQuery = 119"
proof -
  have "\<forall>c \<in> set placeholderQuery. (of_char c :: nat) < 128"
    by (simp add: placeholderQuery_def)
  then show "ValidString placeholderQuery" by (rule ValidString_ascii)
  show "length placeholderQuery = 119" by (simp add: placeholderQuery_def)
qed

lemma trapStore_context:
  "buildFilesContext trapStore =
     (contextHeader @ ''- q.csv (119 bytes)\<newline>'' @ ''Contenido (parcial):\<newline>\<newline>'') @
     placeholderQuery @ ''\<newline>\<newline>''"
proof -
  let ?f = "\<lparr>Name = ''q.csv'', Size = 119, Text = placeholderQuery\<rparr>"
  have "excerpt 0 ?f = Text ?f"
    by (rule excerpt_whole)
       (simp_all add: placeholderQuery_ascii maxPerFileBytes_def maxTotalBytes_def)
  then have e: "excerpt 0 ?f = placeholderQuery" by simp
  have n: "placeholderQuery \<noteq> []" by (rule template_braces)
  have l: "fileLine ?f = ''- q.csv (119 bytes)\<newline>''"
    by (simp add: fileLine_def formatInt_def natDigits.simps)
  show ?thesis
    by (simp add: buildFilesContext_entries ListFiles_def trapStore_def maxTotalBytes_def e n l
        fileEntry_def)
qed

text \<open>
  What holds for every store: a query with a keyword in any ASCII case gets the analyst
  prompt, which holds every section marker, and which is the template with both
  placeholders filled when the CSV context does not contain the wording of the query
  placeholder; a query without a keyword is passed on as it is.
\<close>

lemma buildPrompt_analyst:
  assumes "Contains q k" "\<forall>c \<in> set k. (of_char c :: nat) < 128"
    "map lowerByte k \<in> set analystKeywords"
  shows "buildPrompt caseTable q mem = buildAnalystPrompt q (buildFilesContext mem)"
    and "\<forall>m \<in> set sectionMarkers. Contains (buildPrompt caseTable q mem) m"
    and "\<not> Contains (buildFilesContext mem) placeholderQuery \<Longrightarrow>
           buildPrompt caseTable q mem =
             templateHead @ buildFilesContext mem @ templateMid @ q @ templateTail"
proof -
  from isAnalystQuery_ascii[OF assms] have a: "isAnalystQuery caseTable q" .
  then show p: "buildPrompt caseTable q mem = buildAnalystPrompt q (buildFilesContext mem)"
    by (simp add: buildPrompt_def useAnalyst_def)
  show "\<forall>m \<in> set sectionMarkers. Contains (buildPrompt caseTable q mem) m"
    using buildAnalystPrompt_markers by (simp add: p)
  assume "\<not> Contains (buildFilesContext mem) placeholderQuery"
  from buildAnalystPrompt_filled[OF this] p
  show "buildPrompt caseTable q mem =
          templateHead @ buildFilesContext mem @ templateMid @ q @ templateTail"
    by simp
qed

lemma buildPrompt_verbatim:
  "\<forall>kw \<in> set analystKeywords. \<not> Contains (ToLower caseTable q) kw \<Longrightarrow>
     buildPrompt caseTable q mem = q"
  by (simp add: buildPrompt_cases)

text \<open>
  The prompt is what the network-backed provider sends as the last item of its input.
\<close>

lemma postMessages_sends_prompt:
  assumes "reqContent req \<noteq> []"
    and "userMsg = \<lparr>Role = RoleUser, Content = reqContent req, CreatedAt = clock w (ticks w)\<rparr>"
  shows "sent (snd (snd (postMessages caseTable (OpenAI p) (Inr req) (mem, w)))) =
           sent w @ [replyRequest p (AllMessages (Append userMsg mem))
                       (buildPrompt caseTable (reqContent req) (Append userMsg mem))]"
    and "last (payloadInput (reqBody (replyRequest p history prompt))) = (''user'', prompt)"
proof -
  show "last (payloadInput (reqBody (replyRequest p history prompt))) = (''user'', prompt)"
    by (simp add: replyRequest_def Let_def)
  let ?h = "AllMessages (Append userMsg mem)"
  let ?q = "buildPrompt caseTable (reqContent req) (Append userMsg mem)"
  let ?w = "w\<lparr>ticks := Suc (ticks w)\<rparr>"
  obtain r where r: "readResult (network ?w (length (sent ?w)) (replyRequest p ?h ?q)) = r"
    by blast
  show "sent (snd (snd (postMessages caseTable (OpenAI p) (Inr req) (mem, w)))) =
          sent w @ [replyRequest p ?h ?q]"
    using assms r
    by (cases r) (simp_all add: postMessages_def timeNow_def Let_def OpenAIReply_eq)
qed

text \<open>
  Claim C2 at the store \<open>trapStore\<close> and the query \<open>resumen\<close>. The query is classified as
  analytical, and the prompt holds the section markers; but the query is written into
  the CSV context, where the file's text has the placeholder's wording, and the
  \<open>User Query\<close> placeholder of the template is still in the prompt. The prompt is not the
  template with the CSV context and the query in its two placeholders.
\<close>

theorem C2_query_lands_in_csv_context:
  "isAnalystQuery caseTable ''resumen'' \<and>
   buildPrompt caseTable ''resumen'' (Append userMsg trapStore) =
     templateHead @
     (contextHeader @ ''- q.csv (119 bytes)\<newline>'' @ ''Contenido (parcial):\<newline>\<newline>'' @
      ''resumen'' @ ''\<newline>\<newline>'') @
     templateMid @ placeholderQuery @ templateTail \<and>
   buildPrompt caseTable ''resumen'' (Append userMsg trapStore) \<noteq>
     templateHead @ buildFilesContext (Append userMsg trapStore) @ templateMid @
     ''resumen'' @ templateTail \<and>
   list_all (Contains (buildPrompt caseTable ''resumen'' (Append userMsg trapStore)))
     sectionMarkers"
proof -
  let ?before = "contextHeader @ ''- q.csv (119 bytes)\<newline>'' @ ''Contenido (parcial):\<newline>\<newline>''"
  have a: "isAnalystQuery caseTable ''resumen''"
    by (rule isAnalystQuery_resumen) simp
  have nb: "CHR ''{'' \<notin> set ?before" by (simp add: contextHeader_def)
  have p: "buildPrompt caseTable ''resumen'' (Append userMsg trapStore) =
             templateHead @ (?before @ ''resumen'' @ ''\<newline>\<newline>'') @
             templateMid @ placeholderQuery @ templateTail"
    using buildAnalystPrompt_captured[OF nb, of "''resumen''" "''\<newline>\<newline>''"] a
    by (simp add: buildPrompt_def useAnalyst_def buildFilesContext_Append trapStore_context)
  have ph: "placeholderQuery = CHR ''{'' # tl placeholderQuery"
    by (metis hd_Cons_tl template_braces(4,6))
  have "''resumen'' @ r1 \<noteq> placeholderQuery @ r2" for r1 r2
    by (subst ph) simp
  then have "templateHead @ (?before @ ''resumen'' @ ''\<newline>\<newline>'') @
               templateMid @ placeholderQuery @ templateTail \<noteq>
             templateHead @ (?before @ placeholderQuery @ ''\<newline>\<newline>'') @ templateMid @
               ''resumen'' @ templateTail"
    by (simp del: append_assoc add: append_assoc[symmetric]) (simp add: append_eq_append_conv)
  moreover have "list_all (Contains (buildPrompt caseTable ''resumen'' (Append userMsg trapStore)))
      sectionMarkers"
    using a buildAnalystPrompt_markers
    by (simp add: buildPrompt_def useAnalyst_def list_all_iff)
  ultimately show ?thesis using a p
    by (simp only: buildFilesContext_Append trapStore_context) simp
qed


end
